theory Spec2Isabelle
  imports Main "HOL-Library.Multiset"
begin

section \<open>The parallel loop executor of package parallel\<close>

text \<open>
  The development embeds \<^verbatim>\<open>Executor.For\<close>, \<^verbatim>\<open>Executor.ForWithContext\<close> and
  \<^verbatim>\<open>SerialExecutor\<close>. Go's \<^verbatim>\<open>int\<close> is modelled by \<open>int\<close>: every index the code
  computes lies between \<open>0\<close> and \<open>N\<close> plus the number of goroutines, so no operation of the
  loop wraps around. The one number the code hands to a narrower type is the count of
  goroutines, which \<^verbatim>\<open>sync.WaitGroup\<close> adds to a counter of 32 bits; that counter is
  modelled at its width. A nil error is \<open>None\<close>.

  The goroutines of one call are interleaved by a schedule: a list naming, step by step,
  the goroutine that performs its next atomic action. Every property below is proved for
  all schedules; that the call returns is proved separately, by exhibiting a measure that
  every action decreases.
\<close>

subsection \<open>Loop bodies\<close>

text \<open>
  A loop body receives the index and the goroutine id, acts on the caller's state \<open>'s\<close>
  and returns an error or nil. One invocation is one atomic action.
\<close>

type_synonym ('s, 'e) loopBody = "int \<Rightarrow> int \<Rightarrow> 's \<Rightarrow> 'e option \<times> 's"

text \<open>One recorded invocation: index, goroutine id, returned error.\<close>

type_synonym 'e call = "int \<times> int \<times> 'e option"

definition call_index :: "'e call \<Rightarrow> int" where
  "call_index c = fst c"

definition call_grID :: "'e call \<Rightarrow> int" where
  "call_grID c = fst (snd c)"

definition call_err :: "'e call \<Rightarrow> 'e option" where
  "call_err c = snd (snd c)"

subsection \<open>Strategies and index generators\<close>

text \<open>
  A strategy is one of the two that the package builds in. An implementation of the
  \<^verbatim>\<open>Strategy\<close> interface by the caller, installed with \<^verbatim>\<open>WithCustomStrategy\<close>, is
  arbitrary code and has no counterpart here.
\<close>

datatype Strategy = ContiguousBlocksStrategy | AtomicCounterStrategy

text \<open>
  Modelled from the spec: the type \<^verbatim>\<open>StrategyType\<close> and its three constants are declared
  in a file that is not part of the sources. The spec lists the tags use-defaults,
  preassign-indices and fetch-next-index; every other value of the integer type is
  \<open>StrategyOther\<close>.
\<close>

datatype StrategyType =
    StrategyUseDefaults
  | StrategyPreassignIndices
  | StrategyFetchNextIndex
  | StrategyOther int

text \<open>
  The state of one goroutine's generator. A contiguous-blocks generator holds its cursor,
  the end of its half-open range and the loop bound; an atomic-counter generator holds
  the loop bound only, its cursor being the counter shared by the invocation.
\<close>

datatype IndexGenerator =
    ContiguousBlocksGenerator (cursor: int) (stop: int) (bound: int)
  | AtomicCounterGenerator (bound: int)

text \<open>
  Modelled from the spec: \<^verbatim>\<open>newContiguousBlocksStrategy\<close>, \<^verbatim>\<open>newAtomicCounterStrategy\<close>
  and the methods \<^verbatim>\<open>IndexGenerator\<close> and \<^verbatim>\<open>Next\<close> of both strategies are missing from the
  sources. Contiguous blocks: blocks of size \<open>floor (N / workerCount)\<close>, the first
  \<open>N mod workerCount\<close> blocks one element longer, each generator stepping through its own
  half-open range. Atomic counter: one counter per invocation, starting at 0; \<open>Next\<close>
  increments it and returns the value before the increment. An exhausted generator
  returns a value that is at least \<open>N\<close>.
\<close>

definition newContiguousBlocksStrategy :: Strategy where
  "newContiguousBlocksStrategy = ContiguousBlocksStrategy"

definition newAtomicCounterStrategy :: Strategy where
  "newAtomicCounterStrategy = AtomicCounterStrategy"

definition block_start :: "int \<Rightarrow> int \<Rightarrow> int \<Rightarrow> int" where
  "block_start numGoroutines grID N =
     grID * (N div numGoroutines) + min grID (N mod numGoroutines)"

definition block_size :: "int \<Rightarrow> int \<Rightarrow> int \<Rightarrow> int" where
  "block_size numGoroutines grID N =
     N div numGoroutines + (if grID < N mod numGoroutines then 1 else 0)"

fun Strategy_IndexGenerator :: "Strategy \<Rightarrow> int \<Rightarrow> int \<Rightarrow> int \<Rightarrow> IndexGenerator" where
  "Strategy_IndexGenerator ContiguousBlocksStrategy numGoroutines grID N =
     ContiguousBlocksGenerator (block_start numGoroutines grID N)
       (block_start numGoroutines grID N + block_size numGoroutines grID N) N"
| "Strategy_IndexGenerator AtomicCounterStrategy numGoroutines grID N =
     AtomicCounterGenerator N"

text \<open>
  \<open>IndexGenerator_Next g c\<close> is the index returned, the generator afterwards and the
  shared counter afterwards, for the generator \<open>g\<close> and the shared counter \<open>c\<close>.
\<close>

fun IndexGenerator_Next :: "IndexGenerator \<Rightarrow> int \<Rightarrow> int \<times> IndexGenerator \<times> int" where
  "IndexGenerator_Next (ContiguousBlocksGenerator cur lim N) c =
     (if cur < lim then (cur, ContiguousBlocksGenerator (cur + 1) lim N, c)
      else (N, ContiguousBlocksGenerator cur lim N, c))"
| "IndexGenerator_Next (AtomicCounterGenerator N) c = (c, AtomicCounterGenerator N, c + 1)"

subsection \<open>The executor and its configuration\<close>

record Executor =
  numGoroutines :: int
  parallelStrategy :: "Strategy option"

text \<open>
  \<^verbatim>\<open>DefaultNumGoroutines\<close> is declared outside the sources; its value is a parameter.
  \<^verbatim>\<open>WithCPUProportion\<close> computes the count in floating point from the number of CPUs
  and is not embedded; whatever it computes, it stores a count of at least 1.
\<close>

definition NewExecutor :: "int \<Rightarrow> Executor" where
  "NewExecutor defaultNumGoroutines =
     \<lparr>numGoroutines = defaultNumGoroutines, parallelStrategy = None\<rparr>"

definition NumGoroutines :: "Executor \<Rightarrow> int" where
  "NumGoroutines e = numGoroutines e"

definition WithNumGoroutines :: "Executor \<Rightarrow> int \<Rightarrow> Executor" where
  "WithNumGoroutines e n = e\<lparr>numGoroutines := n\<rparr>"

fun WithStrategy :: "Executor \<Rightarrow> StrategyType \<Rightarrow> Executor" where
  "WithStrategy e StrategyPreassignIndices =
     e\<lparr>parallelStrategy := Some newContiguousBlocksStrategy\<rparr>"
| "WithStrategy e StrategyFetchNextIndex =
     e\<lparr>parallelStrategy := Some newAtomicCounterStrategy\<rparr>"
| "WithStrategy e _ = e\<lparr>parallelStrategy := None\<rparr>"

definition WithCustomStrategy :: "Executor \<Rightarrow> Strategy \<Rightarrow> Executor" where
  "WithCustomStrategy e customStrategy = e\<lparr>parallelStrategy := Some customStrategy\<rparr>"

subsection \<open>The state of one invocation\<close>

text \<open>
  The program points of a goroutine's function literal: before \<^verbatim>\<open>indexGenerator.Next()\<close>
  and the loop condition; before the test of \<^verbatim>\<open>loopCtx.Err()\<close> (in \<^verbatim>\<open>ForWithContext\<close>
  only); before the call of the loop body; before \<^verbatim>\<open>errOnce.Do\<close>; and after the return.
\<close>

datatype 'e point = AtNext | AtCheck int | AtBody int | AtOnce 'e | Exited

record 'e worker =
  gen :: IndexGenerator
  pc :: "'e point"

text \<open>
  The atomic actions of a goroutine, as they are recorded: \<open>Fetched i\<close>, \<^verbatim>\<open>Next()\<close> returned
  \<open>i\<close>; \<open>Checked i c\<close>, the test of \<^verbatim>\<open>loopCtx.Err()\<close> before the body's call for \<open>i\<close> found
  the context cancelled (\<open>c\<close>) or not; \<open>Called i err\<close>, the loop body was invoked for \<open>i\<close>
  and returned \<open>err\<close>; \<open>Captured e won\<close>, \<^verbatim>\<open>errOnce.Do\<close> was called with the error \<open>e\<close>
  and ran its function (\<open>won\<close>) or not. \<open>CtxCancelled\<close> is the caller's context being
  cancelled from outside.
\<close>

datatype 'e action = Fetched int | Checked int bool | Called int "'e option" | Captured 'e bool

datatype 'e event = Act nat "'e action" | CtxCancelled

text \<open>
  What the goroutines of a call share: the counter of the atomic strategy, the
  \<^verbatim>\<open>sync.Once\<close> and the error it guards, the cancellation of the derived context and the
  caller's state. \<open>log\<close> is history: every action in the order it happened.
\<close>

record ('s, 'e) invocation =
  workers :: "'e worker list"
  counter :: int
  errOnce :: bool
  loopErr :: "'e option"
  cancelled :: bool
  store :: 's
  log :: "'e event list"

text \<open>The actions of one goroutine, the invocations of the body and the captured errors.\<close>

fun own :: "nat \<Rightarrow> 'e event list \<Rightarrow> 'e action list" where
  "own g [] = []"
| "own g (Act g' a # evs) = (if g' = g then a # own g evs else own g evs)"
| "own g (CtxCancelled # evs) = own g evs"

fun calls_of :: "'e event list \<Rightarrow> 'e call list" where
  "calls_of [] = []"
| "calls_of (Act g (Called i err) # evs) = (i, int g, err) # calls_of evs"
| "calls_of (ev # evs) = calls_of evs"

fun captures_of :: "'e event list \<Rightarrow> 'e list" where
  "captures_of [] = []"
| "captures_of (Act g (Captured e won) # evs) = e # captures_of evs"
| "captures_of (ev # evs) = captures_of evs"

definition calls :: "('s, 'e) invocation \<Rightarrow> 'e call list" where
  "calls st = calls_of (log st)"

definition captures :: "('s, 'e) invocation \<Rightarrow> 'e list" where
  "captures st = captures_of (log st)"

text \<open>
  The goroutines \<open>0, \<dots>, n - 1\<close> at their start. Each one first makes its generator;
  for both strategies that reads nothing another goroutine changes, so it is part of the
  start and not an action of its own.
\<close>

definition spawn :: "Strategy \<Rightarrow> int \<Rightarrow> int \<Rightarrow> 'e worker list" where
  "spawn strategy n N =
     map (\<lambda>grID. \<lparr>gen = Strategy_IndexGenerator strategy n (int grID) N, pc = AtNext\<rparr>)
       [0..<nat n]"

definition start :: "Strategy \<Rightarrow> int \<Rightarrow> int \<Rightarrow> bool \<Rightarrow> 's \<Rightarrow> ('s, 'e) invocation" where
  "start strategy n N ctxDone s =
     \<lparr>workers = spawn strategy n N, counter = 0, errOnce = False, loopErr = None,
      cancelled = ctxDone, store = s, log = []\<rparr>"

definition set_pc :: "nat \<Rightarrow> 'e point \<Rightarrow> ('s, 'e) invocation \<Rightarrow> ('s, 'e) invocation" where
  "set_pc grID p st = st\<lparr>workers := (workers st)[grID := (workers st ! grID)\<lparr>pc := p\<rparr>]\<rparr>"

definition record_action :: "nat \<Rightarrow> 'e action \<Rightarrow> ('s, 'e) invocation \<Rightarrow> ('s, 'e) invocation" where
  "record_action grID a st = st\<lparr>log := log st @ [Act grID a]\<rparr>"

text \<open>\<^verbatim>\<open>i := indexGenerator.Next()\<close> followed by the loop condition \<^verbatim>\<open>i < N\<close>.\<close>

definition fetch ::
  "int \<Rightarrow> nat \<Rightarrow> (int \<Rightarrow> 'e point) \<Rightarrow> ('s, 'e) invocation \<Rightarrow> ('s, 'e) invocation" where
  "fetch N grID p st =
     (case IndexGenerator_Next (gen (workers st ! grID)) (counter st) of
        (i, g, c) \<Rightarrow>
          record_action grID (Fetched i)
            (st\<lparr>workers := (workers st)[grID := \<lparr>gen = g, pc = (if i < N then p i else Exited)\<rparr>],
                counter := c\<rparr>))"

text \<open>\<^verbatim>\<open>err := loopBody(i, grID)\<close> and the test \<^verbatim>\<open>err != nil\<close>.\<close>

definition invoke :: "('s, 'e) loopBody \<Rightarrow> nat \<Rightarrow> int \<Rightarrow> ('s, 'e) invocation \<Rightarrow> ('s, 'e) invocation" where
  "invoke loopBody grID i st =
     (case loopBody i (int grID) (store st) of
        (err, s) \<Rightarrow>
          record_action grID (Called i err)
            (set_pc grID (case err of None \<Rightarrow> AtNext | Some e \<Rightarrow> AtOnce e) (st\<lparr>store := s\<rparr>)))"

subsection \<open>Executor.For\<close>

text \<open>\<^verbatim>\<open>errOnce.Do(func() { loopErr = err })\<close> and the return that follows it.\<close>

definition For_once :: "nat \<Rightarrow> 'e \<Rightarrow> ('s, 'e) invocation \<Rightarrow> ('s, 'e) invocation" where
  "For_once grID e st =
     record_action grID (Captured e (\<not> errOnce st))
       (set_pc grID Exited
          (if errOnce st then st else st\<lparr>errOnce := True, loopErr := Some e\<rparr>))"

text \<open>
  One atomic action of goroutine \<open>grID\<close>. A goroutine that has returned, and an id that
  names no goroutine, leave the state as it is. \<open>AtCheck\<close> is no program point of
  \<^verbatim>\<open>For\<close>.
\<close>

definition For_step :: "int \<Rightarrow> ('s, 'e) loopBody \<Rightarrow> nat \<Rightarrow> ('s, 'e) invocation \<Rightarrow> ('s, 'e) invocation" where
  "For_step N loopBody grID st =
     (if grID < length (workers st) then
        (case pc (workers st ! grID) of
           AtNext \<Rightarrow> fetch N grID AtBody st
         | AtBody i \<Rightarrow> invoke loopBody grID i st
         | AtOnce e \<Rightarrow> For_once grID e st
         | AtCheck i \<Rightarrow> st
         | Exited \<Rightarrow> st)
      else st)"

text \<open>All goroutines have returned.\<close>

definition joined :: "('s, 'e) invocation \<Rightarrow> bool" where
  "joined st = list_all (\<lambda>w. pc w = Exited) (workers st)"

text \<open>
  \<^verbatim>\<open>sync.WaitGroup\<close> keeps its counter in 32 bits: \<^verbatim>\<open>wg.Add(delta)\<close> adds
  \<^verbatim>\<open>uint64(delta) << 32\<close> to a 64-bit word and reads the counter back as
  \<^verbatim>\<open>int32(state >> 32)\<close>. On a fresh wait group the counter after
  \<^verbatim>\<open>wg.Add(delta)\<close> is therefore the low 32 bits of \<open>delta\<close>, read as a signed number.
\<close>

definition wg_counter :: "int \<Rightarrow> int" where
  "wg_counter delta = (delta + 2 ^ 31) mod 2 ^ 32 - 2 ^ 31"

text \<open>The goroutines that have returned; each of them has called \<^verbatim>\<open>wg.Done()\<close> once.\<close>

definition exited :: "('s, 'e) invocation \<Rightarrow> nat" where
  "exited st = length (filter (\<lambda>w. pc w = Exited) (workers st))"

text \<open>
  The outcome of a call under a schedule. \<open>Panics\<close>: \<^verbatim>\<open>wg.Add\<close> found the counter
  negative, in \<^verbatim>\<open>wg.Add(e.numGoroutines)\<close> or in a \<^verbatim>\<open>wg.Done()\<close>. \<open>Waits\<close>: the call is
  in \<^verbatim>\<open>wg.Wait()\<close> and the counter is not zero. \<open>Returns st\<close>: every goroutine has
  returned, the counter is zero and the call returns \<open>loopErr st\<close>. \<open>Overruns st\<close>: the
  counter is zero although goroutines are still running, which takes a count that does
  not fit the counter; \<^verbatim>\<open>wg.Wait()\<close> lets the call return \<open>loopErr st\<close> in the middle of
  the loop, and the next \<^verbatim>\<open>wg.Done()\<close> panics.
\<close>

datatype ('s, 'e) outcome =
  Panics | Waits | Returns "('s, 'e) invocation" | Overruns "('s, 'e) invocation"

text \<open>
  \<^verbatim>\<open>wg.Add(n)\<close>, the \<^verbatim>\<open>wg.Done()\<close> of the goroutines that have returned in \<open>st\<close>, and
  \<^verbatim>\<open>wg.Wait()\<close>.
\<close>

definition wg_Wait :: "int \<Rightarrow> ('s, 'e) invocation \<Rightarrow> ('s, 'e) outcome" where
  "wg_Wait n st =
     (if wg_counter n < 0 \<or> wg_counter n < int (exited st) then Panics
      else if int (exited st) < wg_counter n then Waits
      else if joined st then Returns st
      else Overruns st)"

text \<open>
  \<^verbatim>\<open>strategy := e.parallelStrategy; if strategy == nil { strategy =
  newContiguousBlocksStrategy() }\<close>, the first statement of both \<^verbatim>\<open>For\<close> and
  \<^verbatim>\<open>ForWithContext\<close>.
\<close>

definition strategy_of :: "Executor \<Rightarrow> Strategy" where
  "strategy_of e =
     (case parallelStrategy e of None \<Rightarrow> newContiguousBlocksStrategy | Some s \<Rightarrow> s)"

text \<open>
  \<open>For_run\<close> is the state the goroutines of a call have reached under a schedule; \<open>For\<close>
  is the call: \<^verbatim>\<open>wg.Add(e.numGoroutines)\<close>, the goroutines, \<^verbatim>\<open>wg.Wait()\<close> and
  \<^verbatim>\<open>return loopErr\<close>.
\<close>

definition For_run :: "Executor \<Rightarrow> int \<Rightarrow> ('s, 'e) loopBody \<Rightarrow> 's \<Rightarrow> nat list \<Rightarrow> ('s, 'e) invocation" where
  "For_run e N loopBody s sched =
     fold (For_step N loopBody) sched (start (strategy_of e) (numGoroutines e) N False s)"

definition For :: "Executor \<Rightarrow> int \<Rightarrow> ('s, 'e) loopBody \<Rightarrow> 's \<Rightarrow> nat list \<Rightarrow> ('s, 'e) outcome" where
  "For e N loopBody s sched = wg_Wait (numGoroutines e) (For_run e N loopBody s sched)"

subsection \<open>Executor.ForWithContext\<close>

text \<open>
  The loop body of \<^verbatim>\<open>ForWithContext\<close> also receives the derived context; what it can
  learn from it is whether the context is cancelled at the time of the invocation.
\<close>

type_synonym ('s, 'e) ctxLoopBody = "bool \<Rightarrow> int \<Rightarrow> int \<Rightarrow> 's \<Rightarrow> 'e option \<times> 's"

text \<open>\<^verbatim>\<open>if loopCtx.Err() != nil { return }\<close>\<close>

definition check :: "nat \<Rightarrow> int \<Rightarrow> ('s, 'e) invocation \<Rightarrow> ('s, 'e) invocation" where
  "check grID i st =
     record_action grID (Checked i (cancelled st))
       (set_pc grID (if cancelled st then Exited else AtBody i) st)"

text \<open>\<^verbatim>\<open>errOnce.Do(func() { loopErr = err; cancel() })\<close> and the return that follows it.\<close>

definition ForWithContext_once :: "nat \<Rightarrow> 'e \<Rightarrow> ('s, 'e) invocation \<Rightarrow> ('s, 'e) invocation" where
  "ForWithContext_once grID e st =
     record_action grID (Captured e (\<not> errOnce st))
       (set_pc grID Exited
          (if errOnce st then st
           else st\<lparr>errOnce := True, loopErr := Some e, cancelled := True\<rparr>))"

text \<open>
  A schedule of \<^verbatim>\<open>ForWithContext\<close> interleaves the goroutines' actions with the one thing
  the environment can do to the call: cancel the caller's context (or let its deadline
  pass), which cancels the derived context.
\<close>

datatype move = Go nat | CtxDone

fun ForWithContext_step ::
  "int \<Rightarrow> ('s, 'e) ctxLoopBody \<Rightarrow> move \<Rightarrow> ('s, 'e) invocation \<Rightarrow> ('s, 'e) invocation" where
  "ForWithContext_step N loopBody CtxDone st =
     st\<lparr>cancelled := True, log := log st @ [CtxCancelled]\<rparr>"
| "ForWithContext_step N loopBody (Go grID) st =
     (if grID < length (workers st) then
        (case pc (workers st ! grID) of
           AtNext \<Rightarrow> fetch N grID AtCheck st
         | AtCheck i \<Rightarrow> check grID i st
         | AtBody i \<Rightarrow> invoke (loopBody (cancelled st)) grID i st
         | AtOnce e \<Rightarrow> ForWithContext_once grID e st
         | Exited \<Rightarrow> st)
      else st)"

declare ForWithContext_step.simps [simp del]

text \<open>
  \<open>ctxDone\<close> says whether the caller's context is already cancelled when the call begins:
  \<^verbatim>\<open>context.WithCancel\<close> then returns a derived context that is cancelled from the start.
\<close>

definition ForWithContext_run ::
  "Executor \<Rightarrow> bool \<Rightarrow> int \<Rightarrow> ('s, 'e) ctxLoopBody \<Rightarrow> 's \<Rightarrow> move list \<Rightarrow> ('s, 'e) invocation" where
  "ForWithContext_run e ctxDone N loopBody s sched =
     fold (ForWithContext_step N loopBody) sched
       (start (strategy_of e) (numGoroutines e) N ctxDone s)"

text \<open>The deferred \<^verbatim>\<open>cancel()\<close> runs when the call returns.\<close>

definition ForWithContext ::
  "Executor \<Rightarrow> bool \<Rightarrow> int \<Rightarrow> ('s, 'e) ctxLoopBody \<Rightarrow> 's \<Rightarrow> move list \<Rightarrow> ('s, 'e) outcome" where
  "ForWithContext e ctxDone N loopBody s sched =
     (case wg_Wait (numGoroutines e) (ForWithContext_run e ctxDone N loopBody s sched) of
        Returns st \<Rightarrow> Returns (st\<lparr>cancelled := True\<rparr>)
      | Overruns st \<Rightarrow> Overruns (st\<lparr>cancelled := True\<rparr>)
      | Panics \<Rightarrow> Panics
      | Waits \<Rightarrow> Waits)"

subsection \<open>SerialExecutor\<close>

text \<open>
  The loop of \<^verbatim>\<open>SerialExecutor\<close>, from index \<open>i\<close> on, with the invocations made so far.
  The result is the returned error, the invocations and the caller's state.
\<close>

function SerialExecutor_loop ::
  "int \<Rightarrow> ('s, 'e) loopBody \<Rightarrow> int \<Rightarrow> 's \<Rightarrow> 'e call list \<Rightarrow> 'e option \<times> 'e call list \<times> 's" where
  "SerialExecutor_loop N loopBody i s tr =
     (if i < N then
        (case loopBody i 0 s of
           (None, s') \<Rightarrow> SerialExecutor_loop N loopBody (i + 1) s' (tr @ [(i, 0, None)])
         | (Some e, s') \<Rightarrow> (Some e, tr @ [(i, 0, Some e)], s'))
      else (None, tr, s))"
  by pat_completeness auto
termination
  by (relation "measure (\<lambda>(N, loopBody, i, s, tr). nat (N - i))") auto

declare SerialExecutor_loop.simps [simp del]

definition SerialExecutor :: "int \<Rightarrow> ('s, 'e) loopBody \<Rightarrow> 's \<Rightarrow> 'e option \<times> 'e call list \<times> 's" where
  "SerialExecutor N loopBody s = SerialExecutor_loop N loopBody 0 s []"

subsection \<open>Histories and example bodies\<close>

text \<open>
  A history of invocations is coherent with a loop body when every recorded error is what
  the body returns in the state its predecessors left, and the last state is the one given.
\<close>

fun coherent :: "('s, 'e) loopBody \<Rightarrow> 's \<Rightarrow> 'e call list \<Rightarrow> 's \<Rightarrow> bool" where
  "coherent loopBody s [] s' = (s' = s)"
| "coherent loopBody s (c # cs) s' =
     (fst (loopBody (call_index c) (call_grID c) s) = call_err c \<and>
      coherent loopBody (snd (loopBody (call_index c) (call_grID c) s)) cs s')"

text \<open>
  A body that counts its invocations in the caller's state and fails at index \<open>k\<close>, with
  an error that tells the index and the goroutine.
\<close>

definition failing_at :: "int \<Rightarrow> (int, int) loopBody" where
  "failing_at k i grID s = (if i = k then Some (10 * i + grID) else None, s + 1)"

subsection \<open>The actions of both entry points as one relation\<close>

text \<open>
  \<open>acts withCtx N body st st'\<close>: some goroutine, or the environment, takes the state
  \<open>st\<close> to \<open>st'\<close> by one atomic action. \<open>withCtx\<close> separates \<^verbatim>\<open>ForWithContext\<close> from
  \<^verbatim>\<open>For\<close>. The step functions above are shown to move along this relation, and the
  invariants are proved once, by cases on it.
\<close>

inductive acts ::
  "bool \<Rightarrow> int \<Rightarrow> ('s, 'e) ctxLoopBody \<Rightarrow> ('s, 'e) invocation \<Rightarrow> ('s, 'e) invocation \<Rightarrow> bool"
  for withCtx :: bool and N :: int and body :: "('s, 'e) ctxLoopBody" where
  cancel:
    "withCtx \<Longrightarrow>
     acts withCtx N body st (st\<lparr>cancelled := True, log := log st @ [CtxCancelled]\<rparr>)"
| fetch:
    "g < length (workers st) \<Longrightarrow> pc (workers st ! g) = AtNext \<Longrightarrow>
     IndexGenerator_Next (gen (workers st ! g)) (counter st) = (i, gn, c) \<Longrightarrow>
     acts withCtx N body st
       (st\<lparr>workers := (workers st)[g := \<lparr>gen = gn,
               pc = (if i < N then (if withCtx then AtCheck i else AtBody i) else Exited)\<rparr>],
           counter := c, log := log st @ [Act g (Fetched i)]\<rparr>)"
| check:
    "withCtx \<Longrightarrow> g < length (workers st) \<Longrightarrow> pc (workers st ! g) = AtCheck i \<Longrightarrow>
     acts withCtx N body st
       (st\<lparr>workers := (workers st)[g := (workers st ! g)
               \<lparr>pc := (if cancelled st then Exited else AtBody i)\<rparr>],
           log := log st @ [Act g (Checked i (cancelled st))]\<rparr>)"
| call:
    "g < length (workers st) \<Longrightarrow> pc (workers st ! g) = AtBody i \<Longrightarrow>
     body (cancelled st) i (int g) (store st) = (err, s') \<Longrightarrow>
     acts withCtx N body st
       (st\<lparr>workers := (workers st)[g := (workers st ! g)
               \<lparr>pc := (case err of None \<Rightarrow> AtNext | Some e \<Rightarrow> AtOnce e)\<rparr>],
           store := s', log := log st @ [Act g (Called i err)]\<rparr>)"
| once:
    "g < length (workers st) \<Longrightarrow> pc (workers st ! g) = AtOnce e \<Longrightarrow>
     acts withCtx N body st
       (st\<lparr>workers := (workers st)[g := (workers st ! g)\<lparr>pc := Exited\<rparr>],
           errOnce := True,
           loopErr := (if errOnce st then loopErr st else Some e),
           cancelled := (cancelled st \<or> (withCtx \<and> \<not> errOnce st)),
           log := log st @ [Act g (Captured e (\<not> errOnce st))]\<rparr>)"

text \<open>
  The number of actions a goroutine can still take: three for every index its generator
  can still return, and those left in the iteration it is in.
\<close>

fun remaining :: "int \<Rightarrow> IndexGenerator \<Rightarrow> nat" where
  "remaining c (ContiguousBlocksGenerator cur lim N) = nat (lim - cur)"
| "remaining c (AtomicCounterGenerator N) = nat (N - c)"

definition todo :: "int \<Rightarrow> 'e worker \<Rightarrow> nat" where
  "todo c w =
     (case pc w of
        AtNext \<Rightarrow> 3 * remaining c (gen w) + 1
      | AtCheck i \<Rightarrow> 3 * remaining c (gen w) + 3
      | AtBody i \<Rightarrow> 3 * remaining c (gen w) + 2
      | AtOnce e \<Rightarrow> 1
      | Exited \<Rightarrow> 0)"

definition effort :: "('s, 'e) invocation \<Rightarrow> nat" where
  "effort st = sum_list (map (todo (counter st)) (workers st))"

text \<open>Every generator of the invocation was made for the loop bound \<open>N\<close>.\<close>

definition made_for :: "int \<Rightarrow> ('s, 'e) invocation \<Rightarrow> bool" where
  "made_for N st = list_all (\<lambda>w. bound (gen w) = N) (workers st)"

text \<open>No goroutine stands before a test of the context: the state of a call of \<^verbatim>\<open>For\<close>.\<close>

definition check_free :: "('s, 'e) invocation \<Rightarrow> bool" where
  "check_free st = list_all (\<lambda>w. case pc w of AtCheck i \<Rightarrow> False | _ \<Rightarrow> True) (workers st)"

subsection \<open>The order of a goroutine's actions\<close>

text \<open>
  The function literal that both entry points start as a goroutine, read as a sequential
  program: \<open>next_point\<close> is the program point an action leads to, \<open>allowed\<close> says which
  action a program point can take, and \<open>follows\<close> that a list of actions is a run of the
  program from a point.
\<close>

definition next_point :: "bool \<Rightarrow> int \<Rightarrow> 'e action \<Rightarrow> 'e point" where
  "next_point withCtx N a =
     (case a of
        Fetched i \<Rightarrow> if i < N then (if withCtx then AtCheck i else AtBody i) else Exited
      | Checked i c \<Rightarrow> if c then Exited else AtBody i
      | Called i err \<Rightarrow> (case err of None \<Rightarrow> AtNext | Some e \<Rightarrow> AtOnce e)
      | Captured e won \<Rightarrow> Exited)"

fun allowed :: "'e point \<Rightarrow> 'e action \<Rightarrow> bool" where
  "allowed AtNext (Fetched i) = True"
| "allowed (AtCheck i) (Checked j c) = (j = i)"
| "allowed (AtBody i) (Called j err) = (j = i)"
| "allowed (AtOnce e) (Captured x won) = (x = e)"
| "allowed p a = False"

fun follows :: "bool \<Rightarrow> int \<Rightarrow> 'e point \<Rightarrow> 'e action list \<Rightarrow> bool" where
  "follows withCtx N p [] = True"
| "follows withCtx N p (a # h) = (allowed p a \<and> follows withCtx N (next_point withCtx N a) h)"

definition point_after :: "bool \<Rightarrow> int \<Rightarrow> 'e point \<Rightarrow> 'e action list \<Rightarrow> 'e point" where
  "point_after withCtx N p h = (if h = [] then p else next_point withCtx N (last h))"

text \<open>
  Every goroutine's recorded actions are a run of the program from its beginning, and the
  goroutine stands at the point that run leads to.
\<close>

definition in_order :: "bool \<Rightarrow> int \<Rightarrow> ('s, 'e) invocation \<Rightarrow> bool" where
  "in_order withCtx N st =
     list_all
       (\<lambda>g. follows withCtx N AtNext (own g (log st)) \<and>
            pc (workers st ! g) = point_after withCtx N AtNext (own g (log st)))
       [0..<length (workers st)]"

subsection \<open>Errors returned and errors captured\<close>

fun errors_of :: "'e call list \<Rightarrow> 'e list" where
  "errors_of [] = []"
| "errors_of ((i, g, Some e) # cs) = e # errors_of cs"
| "errors_of (c # cs) = errors_of cs"

text \<open>Whether each \<^verbatim>\<open>errOnce.Do\<close> ran its function, in the order of the calls.\<close>

fun wins_of :: "'e event list \<Rightarrow> bool list" where
  "wins_of [] = []"
| "wins_of (Act g (Captured e won) # evs) = won # wins_of evs"
| "wins_of (ev # evs) = wins_of evs"

definition uncaptured :: "'e worker \<Rightarrow> 'e multiset" where
  "uncaptured w = (case pc w of AtOnce e \<Rightarrow> {#e#} | _ \<Rightarrow> {#})"

text \<open>
  The slot holds the first error handed to \<^verbatim>\<open>errOnce.Do\<close>, only the first call of
  \<^verbatim>\<open>errOnce.Do\<close> ran its function, and the errors handed over, with those of the
  goroutines that stand before \<^verbatim>\<open>errOnce.Do\<close>, are the errors the body has returned.
\<close>

definition first_wins :: "('s, 'e) invocation \<Rightarrow> bool" where
  "first_wins st =
     (loopErr st = (case captures st of [] \<Rightarrow> None | e # es \<Rightarrow> Some e) \<and>
      errOnce st = (captures st \<noteq> []) \<and>
      wins_of (log st) = map (\<lambda>k. k = 0) [0..<length (captures st)] \<and>
      mset (captures st) + sum_list (map uncaptured (workers st)) = mset (errors_of (calls st)))"

text \<open>A body that fails at the indices listed.\<close>

definition failing_on :: "int list \<Rightarrow> (int, int) loopBody" where
  "failing_on ks i grID s = (if i \<in> set ks then Some (10 * i + grID) else None, s + 1)"

text \<open>A schedule of two goroutines in which the second one reaches \<^verbatim>\<open>errOnce.Do\<close> first.\<close>

definition racing :: "nat list" where
  "racing = [0, 1, 0, 1, 1, 0]"

subsection \<open>A context that is cancelled before the call\<close>

text \<open>
  With a context cancelled from the start no goroutine passes the test of
  \<^verbatim>\<open>loopCtx.Err()\<close>: none stands before the body or before \<^verbatim>\<open>errOnce.Do\<close>, the body has
  not been invoked and the slot is empty.
\<close>

definition never_started :: "('s, 'e) invocation \<Rightarrow> bool" where
  "never_started st =
     (cancelled st \<and> calls st = [] \<and> loopErr st = None \<and>
      list_all (\<lambda>w. case pc w of AtBody i \<Rightarrow> False | AtOnce e \<Rightarrow> False | _ \<Rightarrow> True)
        (workers st))"

text \<open>A body that reports, as its error, whether it was invoked with a cancelled context.\<close>

definition telling :: "(int, bool) ctxLoopBody" where
  "telling c i grID s = (if i = 1 then Some c else None, s + 1)"

subsection \<open>Cancellation of the derived context\<close>

text \<open>
  The events after which the derived context of \<^verbatim>\<open>ForWithContext\<close> is cancelled: the
  cancellation of the caller's context, and a call of \<^verbatim>\<open>errOnce.Do\<close> (the first one calls
  \<^verbatim>\<open>cancel()\<close>, and there is no later one without a first). \<open>cancelled_after d evs\<close>: the
  context, cancelled at the beginning or not (\<open>d\<close>), is cancelled after the events \<open>evs\<close>.
\<close>

fun cancels :: "'e event \<Rightarrow> bool" where
  "cancels CtxCancelled = True"
| "cancels (Act g (Captured x won)) = True"
| "cancels ev = False"

definition cancelled_after :: "bool \<Rightarrow> 'e event list \<Rightarrow> bool" where
  "cancelled_after d evs = (d \<or> list_ex cancels evs)"

text \<open>Every test of \<^verbatim>\<open>loopCtx.Err()\<close> found what the events before it had made of the context.\<close>

fun checks_exact :: "bool \<Rightarrow> 'e event list \<Rightarrow> bool" where
  "checks_exact d [] = True"
| "checks_exact d (Act g (Checked i c) # evs) = (c = d \<and> checks_exact d evs)"
| "checks_exact d (ev # evs) = checks_exact (d \<or> cancels ev) evs"

definition ctx_tracked :: "bool \<Rightarrow> ('s, 'e) invocation \<Rightarrow> bool" where
  "ctx_tracked d st =
     (cancelled st = cancelled_after d (log st) \<and> (errOnce st \<longrightarrow> cancelled st) \<and>
      checks_exact d (log st))"

text \<open>Only the goroutines of the call act.\<close>

definition log_ids :: "('s, 'e) invocation \<Rightarrow> bool" where
  "log_ids st =
     list_all (\<lambda>ev. case ev of Act g a \<Rightarrow> g < length (workers st) | CtxCancelled \<Rightarrow> True) (log st)"

text \<open>
  A schedule of two goroutines: goroutine 1 passes its test of the context, goroutine 0
  then fails at index 1 and cancels, goroutine 1 invokes the body for the index it had
  tested and leaves at its next test.
\<close>

definition cancelling :: "move list" where
  "cancelling =
     [Go 0, Go 0, Go 0, Go 1, Go 1, Go 0, Go 0, Go 0, Go 0, Go 1, Go 1, Go 1]"

subsection \<open>Where the indices are\<close>

text \<open>
  The index a goroutine has fetched and not yet handed to the body; the indices a
  generator still has for its goroutine; the indices the counter of the atomic strategy
  has not yet given out.
\<close>

definition claimed :: "'e worker \<Rightarrow> int multiset" where
  "claimed w = (case pc w of AtCheck i \<Rightarrow> {#i#} | AtBody i \<Rightarrow> {#i#} | _ \<Rightarrow> {#})"

fun unfetched :: "IndexGenerator \<Rightarrow> int multiset" where
  "unfetched (ContiguousBlocksGenerator cur lim N) = mset [cur..lim - 1]"
| "unfetched (AtomicCounterGenerator N) = {#}"

fun unclaimed :: "Strategy \<Rightarrow> int \<Rightarrow> int \<Rightarrow> int multiset" where
  "unclaimed ContiguousBlocksStrategy N c = {#}"
| "unclaimed AtomicCounterStrategy N c = mset [c..N - 1]"

fun made_by :: "Strategy \<Rightarrow> int \<Rightarrow> IndexGenerator \<Rightarrow> bool" where
  "made_by ContiguousBlocksStrategy N (ContiguousBlocksGenerator cur lim N') = (N' = N \<and> lim \<le> N)"
| "made_by AtomicCounterStrategy N (AtomicCounterGenerator N') = (N' = N)"
| "made_by strategy N gn = False"

text \<open>
  Every index of \<open>[0, N)\<close> is in exactly one place: invoked, fetched by a goroutine, left
  in a generator, or left in the counter.
\<close>

definition covering :: "Strategy \<Rightarrow> int \<Rightarrow> ('s, 'e) invocation \<Rightarrow> bool" where
  "covering strategy N st =
     (list_all (\<lambda>w. made_by strategy N (gen w)) (workers st) \<and> 0 \<le> counter st \<and>
      mset (map call_index (calls st))
        + sum_list (map (\<lambda>w. claimed w + unfetched (gen w)) (workers st))
        + unclaimed strategy N (counter st) = mset [0..N - 1])"

text \<open>
  A goroutine whose last action was to fetch a value that is not below \<open>N\<close> has a
  generator with nothing left.
\<close>

definition drained :: "Strategy \<Rightarrow> int \<Rightarrow> ('s, 'e) invocation \<Rightarrow> bool" where
  "drained strategy N st =
     list_all
       (\<lambda>g. own g (log st) \<noteq> [] \<longrightarrow>
            (case last (own g (log st)) of
               Fetched i \<Rightarrow> i < N \<or>
                 (unfetched (gen (workers st ! g)) = {#} \<and> unclaimed strategy N (counter st) = {#})
             | _ \<Rightarrow> True))
       [0..<length (workers st)]"

text \<open>A schedule in which two goroutines take turns.\<close>

definition alternating :: "nat list" where
  "alternating = [0, 1, 0, 1, 0, 1, 0, 1, 0, 1]"

subsection \<open>An empty range\<close>

text \<open>
  With \<open>N \<le> 0\<close> no generator has an index: the blocks are empty and the counter is not
  below \<open>N\<close>. No goroutine gets to the body.
\<close>

fun empty_gen :: "int \<Rightarrow> IndexGenerator \<Rightarrow> bool" where
  "empty_gen N (ContiguousBlocksGenerator cur lim N') = (N' = N \<and> lim \<le> cur)"
| "empty_gen N (AtomicCounterGenerator N') = True"

definition idle :: "int \<Rightarrow> ('s, 'e) invocation \<Rightarrow> bool" where
  "idle N st =
     (calls st = [] \<and> loopErr st = None \<and> 0 \<le> counter st \<and>
      list_all
        (\<lambda>w. empty_gen N (gen w) \<and>
             (case pc w of AtNext \<Rightarrow> True | Exited \<Rightarrow> True | _ \<Rightarrow> False))
        (workers st))"

subsection \<open>A body that fills a result array\<close>

text \<open>
  The body \<^verbatim>\<open>result[i] = f(i)\<close>, which returns no error. The caller's state is the array;
  \<open>None\<close> is the state after the run-time panic of an index out of range.
\<close>

definition write_body :: "(int \<Rightarrow> 'a) \<Rightarrow> ('a list option, 'e) loopBody" where
  "write_body f i grID res =
     (None,
      case res of
        None \<Rightarrow> None
      | Some xs \<Rightarrow> if 0 \<le> i \<and> i < int (length xs) then Some (xs[nat i := f i]) else None)"

text \<open>The state a list of invocations leaves: each one acts on what the ones before it left.\<close>

definition replay :: "('s, 'e) loopBody \<Rightarrow> 'e call list \<Rightarrow> 's \<Rightarrow> 's" where
  "replay loopBody cs s = fold (\<lambda>c t. snd (loopBody (call_index c) (call_grID c) t)) cs s"

subsection \<open>What a goroutine has done with its block\<close>

text \<open>The indices a goroutine has invoked the body for, in order, and the one it holds.\<close>

fun invoked_of :: "'e action list \<Rightarrow> int list" where
  "invoked_of [] = []"
| "invoked_of (Called i err # as) = i # invoked_of as"
| "invoked_of (a # as) = invoked_of as"

definition holding :: "'e worker \<Rightarrow> int list" where
  "holding w = (case pc w of AtCheck i \<Rightarrow> [i] | AtBody i \<Rightarrow> [i] | _ \<Rightarrow> [])"

text \<open>
  Under the contiguous strategy goroutine \<open>g\<close> has invoked, in ascending order, the indices
  of its block that lie below its generator's cursor, except the one it holds.
\<close>

definition block_ok :: "int \<Rightarrow> int \<Rightarrow> nat \<Rightarrow> 'e worker \<Rightarrow> 'e action list \<Rightarrow> bool" where
  "block_ok n N g w h =
     (case gen w of
        ContiguousBlocksGenerator cur lim N' \<Rightarrow>
          N' = N \<and> lim = block_start n (int g) N + block_size n (int g) N \<and> lim \<le> N \<and>
          block_start n (int g) N \<le> cur \<and> cur \<le> lim \<and>
          invoked_of h @ holding w = [block_start n (int g) N..cur - 1]
      | AtomicCounterGenerator N' \<Rightarrow> True)"

definition in_block :: "int \<Rightarrow> int \<Rightarrow> ('s, 'e) invocation \<Rightarrow> bool" where
  "in_block n N st =
     list_all (\<lambda>g. block_ok n N g (workers st ! g) (own g (log st))) [0..<length (workers st)]"

text \<open>A schedule of two goroutines in which goroutine 0 fails at its first index.\<close>

definition one_fails :: "nat list" where
  "one_fails = [0, 0, 0, 1, 1, 1, 1, 1]"

text \<open>
  The number of invocations goroutine \<open>g\<close> has made, counting the one it is about to make
  when it stands before the call of the body.
\<close>

definition committed :: "nat \<Rightarrow> ('s, 'e) invocation \<Rightarrow> nat" where
  "committed g st =
     length (invoked_of (own g (log st))) +
     (if g < length (workers st)
      then (case pc (workers st ! g) of AtBody i \<Rightarrow> 1 | _ \<Rightarrow> 0) else 0)"

section \<open>Properties\<close>

subsection \<open>The serial executor\<close>

lemma SerialExecutor_loop_trace:
  "SerialExecutor_loop N loopBody i s tr = (err, tr', s') \<Longrightarrow>
     \<exists>ts. tr' = tr @ ts \<and> map call_index ts = [i..i + int (length ts) - 1] \<and>
       (\<forall>c\<in>set ts. call_grID c = 0) \<and>
       (\<forall>c\<in>set (butlast ts). call_err c = None) \<and> coherent loopBody s ts s' \<and>
       (case err of
          None \<Rightarrow> i + int (length ts) = max i N \<and> (\<forall>c\<in>set ts. call_err c = None)
        | Some e \<Rightarrow> ts \<noteq> [] \<and> call_err (last ts) = Some e \<and> i + int (length ts) \<le> N)"
proof (induction N loopBody i s tr arbitrary: err tr' s' rule: SerialExecutor_loop.induct)
  case (1 N loopBody i s tr)
  show ?case
  proof (cases "i < N")
    case False
    with "1.prems" show ?thesis
      by (simp add: SerialExecutor_loop.simps [of N loopBody i s tr])
  next
    case True
    obtain r s1 where b: "loopBody i 0 s = (r, s1)" by (cases "loopBody i 0 s")
    show ?thesis
    proof (cases r)
      case (Some e)
      with True b "1.prems" have "err = Some e" "tr' = tr @ [(i, 0, Some e)]"
        by (auto simp add: SerialExecutor_loop.simps [of N loopBody i s tr])
      moreover from True b Some "1.prems" have "s' = s1"
        by (auto simp add: SerialExecutor_loop.simps [of N loopBody i s tr])
      ultimately show ?thesis using True b Some
        by (simp add: call_index_def call_grID_def call_err_def)
    next
      case None
      with True b "1.prems"
      have rec: "SerialExecutor_loop N loopBody (i + 1) s1 (tr @ [(i, 0, None)]) = (err, tr', s')"
        by (simp add: SerialExecutor_loop.simps [of N loopBody i s tr])
      from "1.IH" [OF True b [symmetric] None rec]
      obtain ts where ts: "tr' = (tr @ [(i, 0, None)]) @ ts"
        "map call_index ts = [i + 1..i + 1 + int (length ts) - 1]"
        "\<forall>c\<in>set ts. call_grID c = 0"
        "\<forall>c\<in>set (butlast ts). call_err c = None"
        "coherent loopBody s1 ts s'"
        "(case err of
          None \<Rightarrow> i + 1 + int (length ts) = max (i + 1) N \<and> (\<forall>c\<in>set ts. call_err c = None)
        | Some e \<Rightarrow> ts \<noteq> [] \<and> call_err (last ts) = Some e \<and> i + 1 + int (length ts) \<le> N)"
        by blast
      let ?us = "(i, 0, None) # ts"
      have "tr' = tr @ ?us" using ts(1) by simp
      moreover have "map call_index ?us = [i..i + int (length ?us) - 1]"
        using ts(2) by (simp add: call_index_def upto_rec1 [of i] add.commute add.left_commute)
      moreover have "\<forall>c\<in>set ?us. call_grID c = 0" using ts(3) by (simp add: call_grID_def)
      moreover have "\<forall>c\<in>set (butlast ?us). call_err c = None"
        using ts(4) by (auto simp: call_err_def)
      moreover have "(case err of
          None \<Rightarrow> i + int (length ?us) = max i N \<and> (\<forall>c\<in>set ?us. call_err c = None)
        | Some e \<Rightarrow> ?us \<noteq> [] \<and> call_err (last ?us) = Some e \<and> i + int (length ?us) \<le> N)"
        using ts(6) True by (auto simp: call_err_def split: option.splits)
      moreover have "coherent loopBody s ?us s'"
        using ts(5) b None by (simp add: call_index_def call_grID_def call_err_def)
      ultimately show ?thesis by blast
    qed
  qed
qed

text \<open>
  C5: \<^verbatim>\<open>SerialExecutor().For(N, body)\<close> invokes the body on 0, 1, ... in ascending order
  with goroutine id 0, each invocation in the state the previous one left. When an
  invocation returns an error it is the last one and the call returns that error; no
  earlier invocation failed. When the call returns nil, every index below \<open>N\<close> was
  invoked and none failed.
\<close>

theorem SerialExecutor_ascending_until_error:
  assumes "SerialExecutor N loopBody s = (err, tr, s')"
  shows "map call_index tr = [0..int (length tr) - 1] \<and>
    (\<forall>c\<in>set tr. call_grID c = 0) \<and>
    (\<forall>c\<in>set (butlast tr). call_err c = None) \<and>
    coherent loopBody s tr s' \<and>
    (case err of
       None \<Rightarrow> int (length tr) = max 0 N \<and> (\<forall>c\<in>set tr. call_err c = None)
     | Some e \<Rightarrow> tr \<noteq> [] \<and> call_err (last tr) = Some e \<and> int (length tr) \<le> N)"
  using SerialExecutor_loop_trace [of N loopBody 0 s "[]" err tr s'] assms
  unfolding SerialExecutor_def by (auto split: option.splits)

lemma serial_run: "SerialExecutor 4 (failing_at 2) 0 = (Some 20, [(0, 0, None), (1, 0, None), (2, 0, Some 20)], 3)"
  by (simp add: SerialExecutor_def SerialExecutor_loop.simps failing_at_def)

theorem SerialExecutor_ascending_until_error_witness:
  "SerialExecutor 4 (failing_at 2) 0 = (Some 20, [(0, 0, None), (1, 0, None), (2, 0, Some 20)], 3) \<and>
   map call_index [(0, 0, None), (1, 0, None), (2, 0, Some (20::int))] = [0..2] \<and>
   call_err (last [(0, 0, None), (1, 0, None), (2, 0, Some (20::int))]) = Some 20"
  using SerialExecutor_ascending_until_error [OF serial_run] serial_run by simp

subsection \<open>The step functions move along the relation\<close>

lemma For_step_acts:
  "For_step N b g st = st \<or> acts False N (\<lambda>c. b) st (For_step N b g st)"
proof (cases "g < length (workers st)")
  case False
  then show ?thesis by (simp add: For_step_def)
next
  case True
  show ?thesis
  proof (cases "pc (workers st ! g)")
    case AtNext
    obtain i gn c where n: "IndexGenerator_Next (gen (workers st ! g)) (counter st) = (i, gn, c)"
      by (cases "IndexGenerator_Next (gen (workers st ! g)) (counter st)")
    from acts.fetch [OF True AtNext n, of False N "\<lambda>c. b"] True AtNext n
    show ?thesis by (cases "i < N") (simp_all add: For_step_def fetch_def record_action_def)
  next
    case (AtBody i)
    obtain err s' where n: "b i (int g) (store st) = (err, s')"
      by (cases "b i (int g) (store st)")
    from acts.call [of g st i "\<lambda>c. b" err s' False N] True AtBody n
    show ?thesis by (cases st) (simp add: For_step_def invoke_def record_action_def set_pc_def)
  next
    case (AtOnce e)
    from acts.once [OF True AtOnce, of False N "\<lambda>c. b"] True AtOnce
    show ?thesis by (cases st) (auto simp add: For_step_def For_once_def record_action_def set_pc_def)
  qed (simp_all add: For_step_def True)
qed

lemma ForWithContext_step_acts:
  "ForWithContext_step N b m st = st \<or> acts True N b st (ForWithContext_step N b m st)"
proof (cases m)
  case CtxDone
  then show ?thesis using acts.cancel [of True N b st] by (simp add: ForWithContext_step.simps)
next
  case (Go g)
  show ?thesis
  proof (cases "g < length (workers st)")
    case False
    then show ?thesis using Go by (simp add: ForWithContext_step.simps)
  next
    case True
    show ?thesis
    proof (cases "pc (workers st ! g)")
      case AtNext
      obtain i gn c where n: "IndexGenerator_Next (gen (workers st ! g)) (counter st) = (i, gn, c)"
        by (cases "IndexGenerator_Next (gen (workers st ! g)) (counter st)")
      from acts.fetch [OF True AtNext n, of True N b] True AtNext n Go
      show ?thesis by (cases "i < N") (simp_all add: ForWithContext_step.simps fetch_def record_action_def)
    next
      case (AtCheck i)
      from acts.check [of True g st i N b] True AtCheck Go
      show ?thesis by (cases st) (simp add: ForWithContext_step.simps check_def record_action_def set_pc_def)
    next
      case (AtBody i)
      obtain err s' where n: "b (cancelled st) i (int g) (store st) = (err, s')"
        by (cases "b (cancelled st) i (int g) (store st)")
      from acts.call [of g st i b err s' True N] True AtBody n Go
      show ?thesis by (cases st) (simp add: ForWithContext_step.simps invoke_def record_action_def set_pc_def)
    next
      case (AtOnce e)
      from acts.once [OF True AtOnce, of True N b] True AtOnce Go
      show ?thesis by (cases st) (auto simp add: ForWithContext_step.simps ForWithContext_once_def record_action_def set_pc_def)
    next
      case Exited
      then show ?thesis using Go True by (simp add: ForWithContext_step.simps)
    qed
  qed
qed


lemma For_run_snoc:
  "For_run e N b s (sched @ [g]) = For_step N b g (For_run e N b s sched)"
  by (simp add: For_run_def)

lemma For_run_induct:
  assumes "P (start (strategy_of e) (numGoroutines e) N False s)"
    and "\<And>st st'. P st \<Longrightarrow> acts False N (\<lambda>c. b) st st' \<Longrightarrow> P st'"
  shows "P (For_run e N b s sched)"
proof (induction sched rule: rev_induct)
  case Nil
  show ?case using assms(1) by (simp add: For_run_def)
next
  case (snoc g sched)
  show ?case
    using For_step_acts [of N b g "For_run e N b s sched"] snoc assms(2)
    by (auto simp add: For_run_snoc)
qed

lemma ForWithContext_run_snoc:
  "ForWithContext_run e d N b s (sched @ [m]) =
     ForWithContext_step N b m (ForWithContext_run e d N b s sched)"
  by (simp add: ForWithContext_run_def)

lemma ForWithContext_run_induct:
  assumes "P (start (strategy_of e) (numGoroutines e) N d s)"
    and "\<And>st st'. P st \<Longrightarrow> acts True N b st st' \<Longrightarrow> P st'"
  shows "P (ForWithContext_run e d N b s sched)"
proof (induction sched rule: rev_induct)
  case Nil
  show ?case using assms(1) by (simp add: ForWithContext_run_def)
next
  case (snoc m sched)
  show ?case
    using ForWithContext_step_acts [of N b m "ForWithContext_run e d N b s sched"] snoc assms(2)
    by (auto simp add: ForWithContext_run_snoc)
qed

subsection \<open>Shape of the state\<close>

lemma length_spawn: "length (spawn strategy n N) = nat n"
  by (simp add: spawn_def)

lemma nth_spawn:
  "g < nat n \<Longrightarrow>
   spawn strategy n N ! g = \<lparr>gen = Strategy_IndexGenerator strategy n (int g) N, pc = AtNext\<rparr>"
  by (simp add: spawn_def)

lemma bound_Strategy_IndexGenerator: "bound (Strategy_IndexGenerator strategy n g N) = N"
  by (cases strategy) simp_all

lemma bound_Next:
  "IndexGenerator_Next gn c = (i, gn', c') \<Longrightarrow> bound gn' = bound gn"
  by (cases gn) (auto split: if_splits)

lemma acts_length: "acts w N b st st' \<Longrightarrow> length (workers st') = length (workers st)"
  by (induction rule: acts.induct) simp_all

lemma For_run_length: "length (workers (For_run e N b s sched)) = nat (numGoroutines e)"
  by (rule For_run_induct [where P = "\<lambda>st. length (workers st) = nat (numGoroutines e)"])
    (simp_all add: start_def length_spawn acts_length)

lemma ForWithContext_run_length:
  "length (workers (ForWithContext_run e d N b s sched)) = nat (numGoroutines e)"
  by (rule ForWithContext_run_induct [where P = "\<lambda>st. length (workers st) = nat (numGoroutines e)"])
    (simp_all add: start_def length_spawn acts_length)

lemma made_for_start: "made_for N (start strategy n N d s)"
  by (simp add: made_for_def start_def spawn_def list_all_iff bound_Strategy_IndexGenerator)

lemma list_all_update:
  "list_all P xs \<Longrightarrow> P x \<Longrightarrow> list_all P (xs[g := x])"
  by (auto simp add: list_all_iff dest: set_update_subset_insert [THEN subsetD])

lemma acts_made_for: "acts w N b st st' \<Longrightarrow> made_for N st \<Longrightarrow> made_for N st'"
proof (induction rule: acts.induct)
  case (fetch g st i gn c)
  then have "bound (gen (workers st ! g)) = N"
    by (simp add: made_for_def list_all_length)
  with fetch show ?case
    by (auto simp add: made_for_def intro!: list_all_update dest: bound_Next)
qed (auto simp add: made_for_def list_all_length nth_list_update)

lemma check_free_start: "check_free (start strategy n N d s)"
  by (simp add: check_free_def start_def spawn_def list_all_iff)

lemma acts_check_free: "acts False N b st st' \<Longrightarrow> check_free st \<Longrightarrow> check_free st'"
  by (induction rule: acts.induct)
    (auto simp add: check_free_def list_all_length nth_list_update split: option.splits)

subsection \<open>The wait group\<close>

lemma wg_counter_fits: "- (2 ^ 31) \<le> n \<Longrightarrow> n < 2 ^ 31 \<Longrightarrow> wg_counter n = n"
  by (simp add: wg_counter_def)

lemma wg_counter_max: "0 \<le> n \<Longrightarrow> n < 2 ^ 31 \<Longrightarrow> wg_counter n = max 0 n"
  by (simp add: wg_counter_fits)

lemma wg_counter_high: "2 ^ 31 \<le> n \<Longrightarrow> n < 2 ^ 32 \<Longrightarrow> wg_counter n = n - 2 ^ 32"
proof -
  assume a: "2 ^ 31 \<le> n" "n < 2 ^ 32"
  have "(n + 2 ^ 31) mod 2 ^ 32 = (n + 2 ^ 31 - 2 ^ 32) mod 2 ^ 32"
    using mod_add_self2 [of "n + 2 ^ 31 - 2 ^ 32" "2 ^ 32"] by (simp add: add.commute)
  also have "\<dots> = n + 2 ^ 31 - 2 ^ 32"
    using a by (intro mod_pos_pos_trivial) simp_all
  finally show ?thesis by (simp add: wg_counter_def)
qed

lemma exited_le: "exited st \<le> length (workers st)"
  by (simp add: exited_def)

lemma filter_all: "length (filter P xs) = length xs \<longleftrightarrow> list_all P xs"
proof (induction xs)
  case (Cons x xs)
  have "length (filter P xs) \<noteq> Suc (length xs)"
    using length_filter_le [of P xs] by arith
  with Cons show ?case by simp
qed simp

lemma joined_exited: "joined st \<longleftrightarrow> exited st = length (workers st)"
  by (simp add: joined_def exited_def filter_all)

lemma wg_Wait_joined:
  "joined st \<Longrightarrow> wg_counter n = int (length (workers st)) \<Longrightarrow> wg_Wait n st = Returns st"
  by (simp add: wg_Wait_def joined_exited)

lemma wg_Wait_Returns:
  assumes "wg_Wait n st = Returns st'"
  shows "st' = st" and "joined st" and "wg_counter n = int (length (workers st))"
  using assms by (auto simp add: wg_Wait_def joined_exited split: if_splits)

subsection \<open>Every call returns\<close>

lemma remaining_antimono: "c \<le> c' \<Longrightarrow> remaining c' gn \<le> remaining c gn"
  by (cases gn) simp_all

lemma todo_antimono: "c \<le> c' \<Longrightarrow> todo c' w \<le> todo c w"
  using remaining_antimono [of c c' "gen w"] by (simp add: todo_def split: point.splits)

lemma sum_list_update_less:
  fixes f f' :: "'a \<Rightarrow> nat"
  assumes "g < length ws" "f x < f' (ws ! g)" "\<And>w. f w \<le> f' w"
  shows "sum_list (map f (ws[g := x])) < sum_list (map f' ws)"
  using assms(1,2)
proof (induction ws arbitrary: g)
  case Nil
  then show ?case by simp
next
  case (Cons w ws)
  have le: "sum_list (map f ws) \<le> sum_list (map f' ws)"
    by (rule sum_list_mono) (rule assms(3))
  show ?case
  proof (cases g)
    case 0
    with Cons.prems le show ?thesis by simp
  next
    case (Suc k)
    with Cons.prems have "sum_list (map f (ws[k := x])) < sum_list (map f' ws)"
      by (intro Cons.IH) simp_all
    with Suc assms(3) [of w] show ?thesis by (simp add: add_le_less_mono)
  qed
qed

lemma Next_counter: "IndexGenerator_Next gn c = (i, gn', c') \<Longrightarrow> c \<le> c'"
  by (cases gn) (auto split: if_splits)

lemma Next_remaining:
  "IndexGenerator_Next gn c = (i, gn', c') \<Longrightarrow> i < bound gn \<Longrightarrow>
   Suc (remaining c' gn') \<le> remaining c gn"
  by (cases gn) (auto split: if_splits)

lemma acts_effort:
  assumes "acts w N b st st'" "made_for N st"
  shows "effort st' < effort st \<or> (workers st' = workers st \<and> counter st' = counter st)"
  using assms
proof (induction rule: acts.induct)
  case (fetch g st i gn c)
  have bnd: "bound (gen (workers st ! g)) = N"
    using fetch by (simp add: made_for_def list_all_length)
  let ?p = "if i < N then if w then AtCheck i else AtBody i else Exited"
  have "todo c \<lparr>gen = gn, pc = ?p\<rparr> < todo (counter st) (workers st ! g)"
    using Next_remaining [OF fetch(3)] fetch(2) bnd by (auto simp add: todo_def)
  moreover have "\<And>x. todo c x \<le> todo (counter st) x"
    using Next_counter [OF fetch(3)] by (rule todo_antimono)
  ultimately have "sum_list (map (todo c) ((workers st)[g := \<lparr>gen = gn, pc = ?p\<rparr>]))
      < sum_list (map (todo (counter st)) (workers st))"
    using fetch(1) by (intro sum_list_update_less) simp_all
  then show ?case by (simp add: effort_def)
next
  case (check g st i)
  have "sum_list (map (todo (counter st))
          ((workers st)[g := (workers st ! g)\<lparr>pc := if cancelled st then Exited else AtBody i\<rparr>]))
      < sum_list (map (todo (counter st)) (workers st))"
    using check by (intro sum_list_update_less) (simp_all add: todo_def)
  then show ?case by (simp add: effort_def)
next
  case (call g st i err s')
  have "sum_list (map (todo (counter st))
          ((workers st)[g := (workers st ! g)\<lparr>pc := case err of None \<Rightarrow> AtNext | Some e \<Rightarrow> AtOnce e\<rparr>]))
      < sum_list (map (todo (counter st)) (workers st))"
    using call by (intro sum_list_update_less) (simp_all add: todo_def split: option.splits)
  then show ?case by (simp add: effort_def)
next
  case (once g st e)
  have "sum_list (map (todo (counter st)) ((workers st)[g := (workers st ! g)\<lparr>pc := Exited\<rparr>]))
      < sum_list (map (todo (counter st)) (workers st))"
    using once by (intro sum_list_update_less) (simp_all add: todo_def)
  then show ?case by (simp add: effort_def)
qed simp

lemma length_For_step: "length (workers (For_step N b g st)) = length (workers st)"
  using For_step_acts [of N b g st] by (auto dest: acts_length)

lemma For_step_moves:
  assumes "g < length (workers st)" "pc (workers st ! g) \<noteq> Exited" "check_free st"
  shows "pc (workers (For_step N b g st) ! g) \<noteq> pc (workers st ! g)"
proof (cases "pc (workers st ! g)")
  case AtNext
  with assms(1) show ?thesis
    by (simp add: For_step_def fetch_def record_action_def split: prod.splits)
next
  case (AtCheck i)
  with assms(1,3) show ?thesis by (auto simp add: check_free_def list_all_length)
next
  case (AtBody i)
  with assms(1) show ?thesis
    by (simp add: For_step_def invoke_def record_action_def set_pc_def split: prod.splits option.splits)
next
  case (AtOnce e)
  with assms(1) show ?thesis
    by (simp add: For_step_def For_once_def record_action_def set_pc_def)
next
  case Exited
  with assms(2) show ?thesis by simp
qed

lemma For_step_effort:
  assumes "g < length (workers st)" "pc (workers st ! g) \<noteq> Exited" "check_free st" "made_for N st"
  shows "effort (For_step N b g st) < effort st"
  using For_step_acts [of N b g st] For_step_moves [OF assms(1-3), of N b]
    acts_effort [of False N "\<lambda>c. b" st "For_step N b g st"] assms(4)
  by auto

lemma For_step_keeps:
  assumes "check_free st" "made_for N st"
  shows "check_free (For_step N b g st) \<and> made_for N (For_step N b g st)"
  using For_step_acts [of N b g st] assms
  by (auto dest: acts_check_free acts_made_for)

lemma not_joined: "\<not> joined st \<Longrightarrow> \<exists>g<length (workers st). pc (workers st ! g) \<noteq> Exited"
  by (auto simp add: joined_def list_all_length)

lemma For_completes:
  "check_free st \<Longrightarrow> made_for N st \<Longrightarrow> \<exists>sched. joined (fold (For_step N b) sched st)"
proof (induction "effort st" arbitrary: st rule: less_induct)
  case less
  show ?case
  proof (cases "joined st")
    case True
    then have "joined (fold (For_step N b) [] st)" by simp
    then show ?thesis by blast
  next
    case False
    then obtain g where g: "g < length (workers st)" "pc (workers st ! g) \<noteq> Exited"
      using not_joined [of st] by auto
    let ?st = "For_step N b g st"
    have "effort ?st < effort st"
      using g less.prems by (rule For_step_effort)
    moreover have "check_free ?st" "made_for N ?st"
      using For_step_keeps [OF less.prems] by simp_all
    ultimately obtain sched where "joined (fold (For_step N b) sched ?st)"
      using less.hyps [of ?st] by auto
    then have "joined (fold (For_step N b) (g # sched) st)" by simp
    then show ?thesis by blast
  qed
qed

lemma For_run_shape: "check_free (For_run e N b s sched) \<and> made_for N (For_run e N b s sched)"
proof (rule For_run_induct [where P = "\<lambda>st. check_free st \<and> made_for N st"])
  show "check_free (start (strategy_of e) (numGoroutines e) N False s) \<and>
    made_for N (start (strategy_of e) (numGoroutines e) N False s)"
    by (simp add: check_free_start made_for_start)
next
  fix st st' :: "('a, 'b) invocation"
  assume "check_free st \<and> made_for N st" "acts False N (\<lambda>c. b) st st'"
  then show "check_free st' \<and> made_for N st'"
    using acts_check_free [of N "\<lambda>c. b" st st'] acts_made_for [of False N "\<lambda>c. b" st st'] by simp
qed

lemma For_run_append:
  "For_run e N b s (sched @ sched') = fold (For_step N b) sched' (For_run e N b s sched)"
  by (simp add: For_run_def)

lemma For_joined:
  assumes "joined (For_run e N b s sched)"
    and "wg_counter (numGoroutines e) = max 0 (numGoroutines e)"
  shows "For e N b s sched = Returns (For_run e N b s sched)"
  unfolding For_def using assms(1)
proof (rule wg_Wait_joined)
  show "wg_counter (numGoroutines e) = int (length (workers (For_run e N b s sched)))"
    using assms(2) by (simp add: For_run_length)
qed

lemma For_returns:
  assumes "wg_counter (numGoroutines e) = max 0 (numGoroutines e)"
  shows "\<exists>sched' st. For e N b s (sched @ sched') = Returns st"
proof -
  obtain sched' where "joined (fold (For_step N b) sched' (For_run e N b s sched))"
    using For_completes [of "For_run e N b s sched" N b] For_run_shape [of e N b s sched] by auto
  then have "joined (For_run e N b s (sched @ sched'))"
    by (simp add: For_run_append)
  then have "For e N b s (sched @ sched') = Returns (For_run e N b s (sched @ sched'))"
    using assms by (rule For_joined)
  then show ?thesis by blast
qed

lemma For_Returns:
  assumes "For e N b s sched = Returns st"
  shows "st = For_run e N b s sched" and "joined st"
    and "wg_counter (numGoroutines e) = max 0 (numGoroutines e)"
proof -
  note r = assms [unfolded For_def]
  show st: "st = For_run e N b s sched" using wg_Wait_Returns(1) [OF r] .
  show "joined st" unfolding st using wg_Wait_Returns(2) [OF r] .
  show "wg_counter (numGoroutines e) = max 0 (numGoroutines e)"
    using wg_Wait_Returns(3) [OF r] by (simp add: For_run_length)
qed

text \<open>
  \<^verbatim>\<open>wg.Wait()\<close> lets the call return before its goroutines only when the count does not
  fit the counter and wraps to a number that is not negative: from \<open>2\<^sup>3\<^sup>2\<close> goroutines on.
\<close>

lemma For_Overruns:
  assumes "For e N b s sched = Overruns st"
  shows "st = For_run e N b s sched" and "\<not> joined st" and "2 ^ 32 \<le> numGoroutines e"
proof -
  let ?R = "For_run e N b s sched" and ?n = "numGoroutines e"
  from assms have st: "st = ?R" and c: "0 \<le> wg_counter ?n" "wg_counter ?n = int (exited ?R)"
    and j: "\<not> joined ?R"
    by (auto simp add: For_def wg_Wait_def split: if_splits)
  show "st = ?R" by (rule st)
  show "\<not> joined st" using j st by simp
  have "exited ?R \<noteq> length (workers ?R)" using j by (simp add: joined_exited)
  with exited_le [of ?R] have "exited ?R < nat ?n" by (simp add: For_run_length)
  with c have lt: "wg_counter ?n < ?n" by simp
  show "2 ^ 32 \<le> ?n"
  proof (rule ccontr)
    assume "\<not> 2 ^ 32 \<le> ?n"
    then have u: "?n < 2 ^ 32" by simp
    show False
    proof (cases "?n < 2 ^ 31")
      case True
      from c lt have "0 \<le> ?n" by simp
      with True have "wg_counter ?n = ?n" by (intro wg_counter_fits) simp_all
      with lt show False by simp
    next
      case False
      then have "wg_counter ?n = ?n - 2 ^ 32" using u by (intro wg_counter_high) simp_all
      with c(1) u show False by simp
    qed
  qed
qed

subsection \<open>Configuration\<close>

lemma fold_idle: "(\<And>x. f x s = s) \<Longrightarrow> fold f xs s = s"
  by (induction xs) simp_all

lemma For_step_no_workers: "workers st = [] \<Longrightarrow> For_step N b g st = st"
  by (simp add: For_step_def)

lemma For_run_no_workers:
  "numGoroutines e \<le> 0 \<Longrightarrow> For_run e N b s sched = start (strategy_of e) (numGoroutines e) N False s"
  unfolding For_run_def
  by (rule fold_idle) (simp add: For_step_no_workers start_def spawn_def)

text \<open>
  A count that the counter of the wait group reads as negative makes \<^verbatim>\<open>wg.Add\<close>
  panic: the negative counts down to \<open>- 2\<^sup>3\<^sup>1\<close>, and \<open>2\<^sup>3\<^sup>1\<close> itself. A count of
  \<open>- 2\<^sup>3\<^sup>2\<close> leaves the counter at zero: no goroutine starts and the call returns nil.
  A count of \<open>1 - 2\<^sup>3\<^sup>2\<close> leaves it at one: no goroutine starts and \<^verbatim>\<open>wg.Wait()\<close> never
  returns.
\<close>

lemma For_negative_goroutines:
  "- (2 ^ 31) \<le> n \<Longrightarrow> n < 0 \<Longrightarrow> For (WithNumGoroutines e n) N b s sched = Panics"
  by (simp add: For_def wg_Wait_def WithNumGoroutines_def wg_counter_fits)

lemma For_counter_wraps:
  "For (WithNumGoroutines e (2 ^ 31)) N b s sched = Panics"
  "For (WithNumGoroutines e (- (2 ^ 32))) N b s sched
     = Returns (start (strategy_of e) (- (2 ^ 32)) N False s)"
  "For (WithNumGoroutines e (1 - 2 ^ 32)) N b s sched = Waits"
proof -
  have s: "strategy_of (WithNumGoroutines e n) = strategy_of e" for n
    by (simp add: strategy_of_def WithNumGoroutines_def)
  have r: "n \<le> 0 \<Longrightarrow> For_run (WithNumGoroutines e n) N b s sched = start (strategy_of e) n N False s"
    for n
    using For_run_no_workers [of "WithNumGoroutines e n" N b s sched] s
    by (simp add: WithNumGoroutines_def)
  show "For (WithNumGoroutines e (2 ^ 31)) N b s sched = Panics"
    by (simp add: For_def wg_Wait_def WithNumGoroutines_def wg_counter_def)
  show "For (WithNumGoroutines e (- (2 ^ 32))) N b s sched
     = Returns (start (strategy_of e) (- (2 ^ 32)) N False s)"
    using r [of "- (2 ^ 32)"]
    by (simp add: For_def wg_Wait_def WithNumGoroutines_def wg_counter_def exited_def joined_def
        start_def spawn_def)
  show "For (WithNumGoroutines e (1 - 2 ^ 32)) N b s sched = Waits"
    using r [of "1 - 2 ^ 32"]
    by (simp add: For_def wg_Wait_def WithNumGoroutines_def wg_counter_def exited_def joined_def
        start_def spawn_def)
qed

text \<open>
  C9, as the code has it: a count of zero is neither clamped to one nor rejected.
  \<^verbatim>\<open>For\<close> then starts no goroutine: whatever \<open>N\<close>, the body and the schedule are, the call
  returns nil and the body has not been invoked.
\<close>

theorem For_zero_goroutines:
  "For (WithNumGoroutines e 0) N b s sched
     = Returns (start (strategy_of e) 0 N False s) \<and>
   loopErr (start (strategy_of e) 0 N False s :: ('s, 'e) invocation) = None \<and>
   calls (start (strategy_of e) 0 N False s :: ('s, 'e) invocation) = []"
proof -
  have "strategy_of (WithNumGoroutines e 0) = strategy_of e"
    by (simp add: strategy_of_def WithNumGoroutines_def)
  then have "For_run (WithNumGoroutines e 0) N b s sched = start (strategy_of e) 0 N False s"
    using For_run_no_workers [of "WithNumGoroutines e 0" N b s sched]
    by (simp add: WithNumGoroutines_def)
  then show ?thesis
    by (simp add: For_def wg_Wait_def wg_counter_def exited_def WithNumGoroutines_def joined_def
        start_def spawn_def calls_def)
qed

theorem For_zero_goroutines_witness:
  "For (WithNumGoroutines (NewExecutor 4) 0) 5 (failing_at 7) 0 [0, 1, 0]
     = Returns (start ContiguousBlocksStrategy 0 5 False 0) \<and>
   loopErr (start ContiguousBlocksStrategy 0 5 False (0::int) :: (int, int) invocation) = None \<and>
   calls (start ContiguousBlocksStrategy 0 5 False (0::int) :: (int, int) invocation) = []"
  using For_zero_goroutines [of "NewExecutor 4" 5 "failing_at 7" 0 "[0, 1, 0]"]
  by (simp add: strategy_of_def NewExecutor_def newContiguousBlocksStrategy_def)

text \<open>
  The claim fails at a count of 0 and \<open>N = 3\<close>: the call returns nil, and of the indices
  0, 1 and 2 none has been handed to the body.
\<close>

theorem For_zero_goroutines_counterexample:
  "For (WithNumGoroutines (NewExecutor 4) 0) 3 (failing_on []) 0 [0, 1, 0]
     = Returns (For_run (WithNumGoroutines (NewExecutor 4) 0) 3 (failing_on []) 0 [0, 1, 0]) \<and>
   loopErr (For_run (WithNumGoroutines (NewExecutor 4) 0) 3 (failing_on []) 0 [0, 1, 0]) = None \<and>
   map call_index (calls (For_run (WithNumGoroutines (NewExecutor 4) 0) 3 (failing_on []) 0 [0, 1, 0]))
     = [] \<and>
   [0..3 - 1] = [0, 1, 2::int]"
proof -
  have "For_run (WithNumGoroutines (NewExecutor 4) 0) 3 (failing_on []) 0 [0, 1, 0]
      = start (strategy_of (WithNumGoroutines (NewExecutor 4) 0)) 0 3 False 0"
    using For_run_no_workers [of "WithNumGoroutines (NewExecutor 4) 0" 3 "failing_on []" 0 "[0, 1, 0]"]
    by (simp add: WithNumGoroutines_def)
  then show ?thesis
    by (simp add: For_def wg_Wait_def wg_counter_def exited_def WithNumGoroutines_def joined_def
        start_def spawn_def calls_def upto_rec1)
qed

text \<open>
  C8: with no strategy configured (a new executor, or \<^verbatim>\<open>WithStrategy\<close> called with
  \<^verbatim>\<open>StrategyUseDefaults\<close> or an unrecognized tag) the strategy that \<^verbatim>\<open>For\<close> and
  \<^verbatim>\<open>ForWithContext\<close> use is the contiguous-blocks strategy: both start from the
  goroutines that strategy makes, goroutine \<open>g\<close> with the generator of its block, and run
  as they do when that strategy is configured. \<^verbatim>\<open>StrategyPreassignIndices\<close> selects the
  contiguous-blocks strategy, with the same start, and \<^verbatim>\<open>StrategyFetchNextIndex\<close> the
  atomic-counter strategy, where every goroutine starts with the generator on the shared
  counter.
\<close>

theorem WithStrategy_selection:
  "parallelStrategy (NewExecutor d) = None \<and>
   parallelStrategy (WithStrategy e StrategyUseDefaults) = None \<and>
   parallelStrategy (WithStrategy e (StrategyOther k)) = None \<and>
   parallelStrategy (WithStrategy e StrategyPreassignIndices) = Some ContiguousBlocksStrategy \<and>
   parallelStrategy (WithStrategy e StrategyFetchNextIndex) = Some AtomicCounterStrategy \<and>
   For (e\<lparr>parallelStrategy := None\<rparr>) N b s sched
     = For (WithCustomStrategy e ContiguousBlocksStrategy) N b s sched \<and>
   ForWithContext (e\<lparr>parallelStrategy := None\<rparr>) ctxDone N cb s csched
     = ForWithContext (WithCustomStrategy e ContiguousBlocksStrategy) ctxDone N cb s csched \<and>
   For (WithStrategy e StrategyPreassignIndices) N b s sched
     = For (WithCustomStrategy e ContiguousBlocksStrategy) N b s sched \<and>
   ForWithContext (WithStrategy e StrategyPreassignIndices) ctxDone N cb s csched
     = ForWithContext (WithCustomStrategy e ContiguousBlocksStrategy) ctxDone N cb s csched \<and>
   For (WithStrategy e StrategyFetchNextIndex) N b s sched
     = For (WithCustomStrategy e AtomicCounterStrategy) N b s sched \<and>
   ForWithContext (WithStrategy e StrategyFetchNextIndex) ctxDone N cb s csched
     = ForWithContext (WithCustomStrategy e AtomicCounterStrategy) ctxDone N cb s csched \<and>
   strategy_of (NewExecutor d) = ContiguousBlocksStrategy \<and>
   strategy_of (e\<lparr>parallelStrategy := None\<rparr>) = ContiguousBlocksStrategy \<and>
   strategy_of (WithStrategy e StrategyUseDefaults) = ContiguousBlocksStrategy \<and>
   strategy_of (WithStrategy e (StrategyOther k)) = ContiguousBlocksStrategy \<and>
   strategy_of (WithStrategy e StrategyPreassignIndices) = ContiguousBlocksStrategy \<and>
   strategy_of (WithStrategy e StrategyFetchNextIndex) = AtomicCounterStrategy \<and>
   For_run (e\<lparr>parallelStrategy := None\<rparr>) N b s sched
     = fold (For_step N b) sched (start ContiguousBlocksStrategy (numGoroutines e) N False s) \<and>
   ForWithContext_run (e\<lparr>parallelStrategy := None\<rparr>) ctxDone N cb s csched
     = fold (ForWithContext_step N cb) csched
         (start ContiguousBlocksStrategy (numGoroutines e) N ctxDone s) \<and>
   For_run (WithStrategy e StrategyPreassignIndices) N b s sched
     = fold (For_step N b) sched (start ContiguousBlocksStrategy (numGoroutines e) N False s) \<and>
   ForWithContext_run (WithStrategy e StrategyPreassignIndices) ctxDone N cb s csched
     = fold (ForWithContext_step N cb) csched
         (start ContiguousBlocksStrategy (numGoroutines e) N ctxDone s) \<and>
   For_run (WithStrategy e StrategyFetchNextIndex) N b s sched
     = fold (For_step N b) sched (start AtomicCounterStrategy (numGoroutines e) N False s) \<and>
   ForWithContext_run (WithStrategy e StrategyFetchNextIndex) ctxDone N cb s csched
     = fold (ForWithContext_step N cb) csched
         (start AtomicCounterStrategy (numGoroutines e) N ctxDone s) \<and>
   (\<forall>g<nat (numGoroutines e).
      gen (workers (For_run (e\<lparr>parallelStrategy := None\<rparr>) N b s []) ! g)
        = ContiguousBlocksGenerator (block_start (numGoroutines e) (int g) N)
            (block_start (numGoroutines e) (int g) N + block_size (numGoroutines e) (int g) N) N \<and>
      gen (workers (ForWithContext_run (e\<lparr>parallelStrategy := None\<rparr>) ctxDone N cb s []) ! g)
        = ContiguousBlocksGenerator (block_start (numGoroutines e) (int g) N)
            (block_start (numGoroutines e) (int g) N + block_size (numGoroutines e) (int g) N) N \<and>
      gen (workers (For_run (WithStrategy e StrategyFetchNextIndex) N b s []) ! g)
        = AtomicCounterGenerator N \<and>
      gen (workers (ForWithContext_run (WithStrategy e StrategyFetchNextIndex) ctxDone N cb s []) ! g)
        = AtomicCounterGenerator N)"
  by (simp add: NewExecutor_def WithCustomStrategy_def strategy_of_def
      newContiguousBlocksStrategy_def newAtomicCounterStrategy_def
      For_def For_run_def ForWithContext_def ForWithContext_run_def start_def nth_spawn)

theorem WithStrategy_selection_witness:
  "parallelStrategy (WithStrategy (NewExecutor 4) (StrategyOther 9)) = None \<and>
   strategy_of (WithStrategy (NewExecutor 4) (StrategyOther 9)) = ContiguousBlocksStrategy \<and>
   For ((NewExecutor 4)\<lparr>parallelStrategy := None\<rparr>) 3 (failing_at 7) 0 [0, 1]
     = For (WithCustomStrategy (NewExecutor 4) ContiguousBlocksStrategy) 3 (failing_at 7) 0 [0, 1] \<and>
   gen (workers (For_run ((NewExecutor 4)\<lparr>parallelStrategy := None\<rparr>) 3 (failing_at 7) (0::int)
       [] :: (int, int) invocation) ! 1)
     = ContiguousBlocksGenerator 1 2 3 \<and>
   gen (workers (For_run (WithStrategy (NewExecutor 4) StrategyFetchNextIndex) 3 (failing_at 7) (0::int)
       [] :: (int, int) invocation) ! 1)
     = AtomicCounterGenerator 3 \<and>
   calls (For_run (WithStrategy (NewExecutor 4) (StrategyOther 9)) 3 (failing_at 7) 0 [1, 1])
     = [(1, 1, None)] \<and>
   calls (For_run (WithStrategy (NewExecutor 4) StrategyFetchNextIndex) 3 (failing_at 7) 0 [1, 1])
     = [(0, 1, None)]"
proof -
  have c: "calls (For_run (WithStrategy (NewExecutor 4) (StrategyOther 9)) 3 (failing_at 7) 0 [1, 1])
      = [(1, 1, None)]"
    "calls (For_run (WithStrategy (NewExecutor 4) StrategyFetchNextIndex) 3 (failing_at 7) 0 [1, 1])
      = [(0, 1, None)]"
    by code_simp+
  note t = WithStrategy_selection
    [of 4 "NewExecutor 4" 9 3 "failing_at 7" 0 "[0, 1]" False "\<lambda>c. failing_at 7" "[]"]
  have g: "(1::nat) < nat (numGoroutines (NewExecutor 4))" by (simp add: NewExecutor_def)
  have n: "numGoroutines (NewExecutor 4) = 4" by (simp add: NewExecutor_def)
  have b: "block_start 4 1 3 = 1" "block_size 4 1 3 = 1"
    by (simp_all add: block_start_def block_size_def)
  have m: "parallelStrategy (WithStrategy (NewExecutor 4) (StrategyOther 9)) = None \<and>
   strategy_of (WithStrategy (NewExecutor 4) (StrategyOther 9)) = ContiguousBlocksStrategy \<and>
   For ((NewExecutor 4)\<lparr>parallelStrategy := None\<rparr>) 3 (failing_at 7) 0 [0, 1]
     = For (WithCustomStrategy (NewExecutor 4) ContiguousBlocksStrategy) 3 (failing_at 7) 0 [0, 1] \<and>
   gen (workers (For_run ((NewExecutor 4)\<lparr>parallelStrategy := None\<rparr>) 3 (failing_at 7) (0::int)
       [] :: (int, int) invocation) ! 1)
     = ContiguousBlocksGenerator 1 2 3 \<and>
   gen (workers (For_run (WithStrategy (NewExecutor 4) StrategyFetchNextIndex) 3 (failing_at 7) (0::int)
       [] :: (int, int) invocation) ! 1)
     = AtomicCounterGenerator 3"
    using t [THEN conjunct2, THEN conjunct2, THEN conjunct1]
      t [THEN conjunct2, THEN conjunct2, THEN conjunct2, THEN conjunct2, THEN conjunct2, THEN conjunct1]
      t [THEN conjunct2, THEN conjunct2, THEN conjunct2, THEN conjunct2, THEN conjunct2,
         THEN conjunct2, THEN conjunct2, THEN conjunct2, THEN conjunct2, THEN conjunct2,
         THEN conjunct2, THEN conjunct2, THEN conjunct2, THEN conjunct2, THEN conjunct1]
      t [THEN conjunct2, THEN conjunct2, THEN conjunct2, THEN conjunct2, THEN conjunct2,
         THEN conjunct2, THEN conjunct2, THEN conjunct2, THEN conjunct2, THEN conjunct2,
         THEN conjunct2, THEN conjunct2, THEN conjunct2, THEN conjunct2, THEN conjunct2,
         THEN conjunct2, THEN conjunct2, THEN conjunct2, THEN conjunct2, THEN conjunct2,
         THEN conjunct2, THEN conjunct2, THEN conjunct2, THEN spec, THEN mp, OF g]
    by (simp add: n b)
  from m c show ?thesis by blast
qed

subsection \<open>Goroutines act in program order\<close>

lemma own_append: "own g (xs @ ys) = own g xs @ own g ys"
  by (induction xs rule: own.induct) simp_all

lemma own_mem: "a \<in> set (own g evs) \<longleftrightarrow> Act g a \<in> set evs"
  by (induction g evs rule: own.induct) auto

lemma invoked_of_append: "invoked_of (as @ bs) = invoked_of as @ invoked_of bs"
  by (induction as rule: invoked_of.induct) simp_all

lemma calls_of_append: "calls_of (xs @ ys) = calls_of xs @ calls_of ys"
  by (induction xs rule: calls_of.induct) simp_all

lemma captures_of_append: "captures_of (xs @ ys) = captures_of xs @ captures_of ys"
  by (induction xs rule: captures_of.induct) simp_all

lemma follows_snoc:
  "follows w N p (h @ [a]) = (follows w N p h \<and> allowed (point_after w N p h) a)"
  by (induction h arbitrary: p) (auto simp add: point_after_def)

lemma follows_append:
  "follows w N p (h @ h') = (follows w N p h \<and> follows w N (point_after w N p h) h')"
  by (induction h arbitrary: p) (auto simp add: point_after_def)

lemma point_after_snoc: "point_after w N p (h @ [a]) = next_point w N a"
  by (simp add: point_after_def)

lemma in_order_start: "in_order w N (start strategy n N d s)"
  by (simp add: in_order_def start_def list_all_iff spawn_def point_after_def)

lemma in_order_act:
  assumes "in_order w N st" "g < length (workers st)"
    and "allowed (pc (workers st ! g)) a"
    and "length ws = length (workers st)"
    and "pc (ws ! g) = next_point w N a"
    and "\<And>k. k \<noteq> g \<Longrightarrow> ws ! k = workers st ! k"
    and "workers st' = ws" "log st' = log st @ [Act g a]"
  shows "in_order w N st'"
  unfolding in_order_def list_all_iff
proof
  fix k assume "k \<in> set [0..<length (workers st')]"
  then have k: "k < length (workers st)" using assms(4,7) by simp
  then have old: "follows w N AtNext (own k (log st))"
    "pc (workers st ! k) = point_after w N AtNext (own k (log st))"
    using assms(1) by (simp_all add: in_order_def list_all_iff)
  show "follows w N AtNext (own k (log st')) \<and>
        pc (workers st' ! k) = point_after w N AtNext (own k (log st'))"
  proof (cases "k = g")
    case True
    with old assms(3,5,7,8) show ?thesis
      by (simp add: own_append follows_snoc point_after_snoc)
  next
    case False
    with old assms(6) [of k] assms(7,8) show ?thesis
      by (simp add: own_append)
  qed
qed

lemma acts_in_order: "acts w N b st st' \<Longrightarrow> in_order w N st \<Longrightarrow> in_order w N st'"
proof (induction rule: acts.induct)
  case (cancel st)
  then show ?case by (simp add: in_order_def own_append)
next
  case (fetch g st i gn c)
  show ?case
    by (rule in_order_act [OF fetch(4) fetch(1), where a = "Fetched i"])
      (simp_all add: fetch next_point_def)
next
  case (check g st i)
  show ?case
    by (rule in_order_act [OF check(4) check(2), where a = "Checked i (cancelled st)"])
      (simp_all add: check next_point_def)
next
  case (call g st i err s')
  show ?case
    by (rule in_order_act [OF call(4) call(1), where a = "Called i err"])
      (simp_all add: call next_point_def)
next
  case (once g st e)
  show ?case
    by (rule in_order_act [OF once(3) once(1), where a = "Captured e (\<not> errOnce st)"])
      (simp_all add: once next_point_def)
qed

subsection \<open>The first captured error is the one returned\<close>

lemma errors_of_append: "errors_of (xs @ ys) = errors_of xs @ errors_of ys"
  by (induction xs rule: errors_of.induct) simp_all

lemma wins_of_append: "wins_of (xs @ ys) = wins_of xs @ wins_of ys"
  by (induction xs rule: wins_of.induct) simp_all

lemma errors_of_one: "errors_of [(i, g, err)] = (case err of None \<Rightarrow> [] | Some e \<Rightarrow> [e])"
  by (cases err) simp_all

lemmas log_append = calls_def captures_def calls_of_append captures_of_append
  errors_of_append wins_of_append

lemma sum_list_map_update:
  fixes f :: "'a \<Rightarrow> 'b::comm_monoid_add"
  shows "g < length ws \<Longrightarrow>
    sum_list (map f (ws[g := x])) + f (ws ! g) = sum_list (map f ws) + f x"
proof (induction ws arbitrary: g)
  case Nil
  then show ?case by simp
next
  case (Cons w ws)
  show ?case
  proof (cases g)
    case 0
    then show ?thesis by (simp add: ac_simps)
  next
    case (Suc k)
    with Cons.prems have "sum_list (map f (ws[k := x])) + f (ws ! k) = sum_list (map f ws) + f x"
      by (intro Cons.IH) simp
    with Suc show ?thesis by (simp add: ac_simps)
  qed
qed

lemma uncaptured_update:
  assumes "g < length ws"
  shows "sum_list (map uncaptured (ws[g := x])) + uncaptured (ws ! g)
    = sum_list (map uncaptured ws) + uncaptured x"
  using assms by (rule sum_list_map_update)

lemma first_wins_start: "first_wins (start strategy n N d s)"
  by (simp add: first_wins_def start_def spawn_def captures_def calls_def uncaptured_def comp_def)

lemma acts_first_wins: "acts w N b st st' \<Longrightarrow> first_wins st \<Longrightarrow> first_wins st'"
proof (induction rule: acts.induct)
  case (cancel st)
  then show ?case
    by (simp add: first_wins_def log_append)
next
  case (fetch g st i gn c)
  let ?x = "\<lparr>gen = gn, pc = if i < N then if w then AtCheck i else AtBody i else Exited\<rparr>"
  have "uncaptured (workers st ! g) = {#}" "uncaptured ?x = {#}"
    using fetch(2) by (simp_all add: uncaptured_def)
  with uncaptured_update [OF fetch(1), of ?x]
  have "sum_list (map uncaptured ((workers st)[g := ?x])) = sum_list (map uncaptured (workers st))"
    by simp
  with fetch(4) show ?case
    by (simp add: first_wins_def log_append)
next
  case (check g st i)
  let ?x = "(workers st ! g)\<lparr>pc := if cancelled st then Exited else AtBody i\<rparr>"
  have "uncaptured (workers st ! g) = {#}" "uncaptured ?x = {#}"
    using check(3) by (simp_all add: uncaptured_def)
  with uncaptured_update [OF check(2), of ?x]
  have "sum_list (map uncaptured ((workers st)[g := ?x])) = sum_list (map uncaptured (workers st))"
    by simp
  with check(4) show ?case
    by (simp add: first_wins_def log_append)
next
  case (call g st i err s')
  let ?x = "(workers st ! g)\<lparr>pc := case err of None \<Rightarrow> AtNext | Some e \<Rightarrow> AtOnce e\<rparr>"
  have "uncaptured (workers st ! g) = {#}" "uncaptured ?x = mset (errors_of [(i, int g, err)])"
    using call(2) by (simp_all add: uncaptured_def errors_of_one split: option.splits)
  with uncaptured_update [OF call(1), of ?x]
  have "sum_list (map uncaptured ((workers st)[g := ?x]))
      = sum_list (map uncaptured (workers st)) + mset (errors_of [(i, int g, err)])"
    by simp
  with call(4) show ?case
    by (simp add: first_wins_def log_append)
next
  case (once g st e)
  let ?x = "(workers st ! g)\<lparr>pc := Exited\<rparr>"
  have "uncaptured (workers st ! g) = {#e#}" "uncaptured ?x = {#}"
    using once(2) by (simp_all add: uncaptured_def)
  with uncaptured_update [OF once(1), of ?x]
  have "sum_list (map uncaptured (workers st))
      = add_mset e (sum_list (map uncaptured ((workers st)[g := ?x])))"
    by simp
  with once(3) show ?case
    by (auto simp add: first_wins_def log_append split: list.splits)
qed

lemma exited_uncaptured:
  "list_all (\<lambda>w. pc w = Exited) ws \<Longrightarrow> sum_list (map uncaptured ws) = {#}"
  by (induction ws) (simp_all add: uncaptured_def)

lemma joined_uncaptured: "joined st \<Longrightarrow> sum_list (map uncaptured (workers st)) = {#}"
  by (simp add: joined_def exited_uncaptured)


lemma For_run_first_wins: "first_wins (For_run e N b s sched)"
  by (rule For_run_induct [where P = first_wins]) (simp_all add: first_wins_start acts_first_wins)

lemma ForWithContext_run_first_wins: "first_wins (ForWithContext_run e d N b s sched)"
  by (rule ForWithContext_run_induct [where P = first_wins])
    (simp_all add: first_wins_start acts_first_wins)

lemma errors_of_set: "x \<in> set (errors_of cs) \<longleftrightarrow> (\<exists>i g. (i, g, Some x) \<in> set cs)"
  by (induction cs rule: errors_of.induct) auto

text \<open>
  C2: the error a call of \<^verbatim>\<open>For\<close> returns is the first one handed to \<^verbatim>\<open>errOnce.Do\<close>;
  only that call of \<^verbatim>\<open>errOnce.Do\<close> assigned the slot. The errors handed to
  \<^verbatim>\<open>errOnce.Do\<close> are exactly the errors the body's invocations returned, so the
  returned error was returned by an invocation of the body, and the call returns nil
  exactly when no invocation failed. Every other error is dropped.
\<close>

theorem For_first_error_wins:
  assumes "For e N body s sched = Returns st"
  shows "loopErr st = (case captures st of [] \<Rightarrow> None | x # xs \<Rightarrow> Some x) \<and>
    wins_of (log st) = map (\<lambda>k. k = 0) [0..<length (captures st)] \<and>
    mset (captures st) = mset (errors_of (calls st)) \<and>
    (\<forall>x. loopErr st = Some x \<longrightarrow> (\<exists>i g. (i, g, Some x) \<in> set (calls st))) \<and>
    (loopErr st = None \<longleftrightarrow> errors_of (calls st) = [])"
proof -
  note st = For_Returns(1) [OF assms] and j = For_Returns(2) [OF assms]
  have fw: "first_wins st" unfolding st by (rule For_run_first_wins)
  then have m: "mset (captures st) = mset (errors_of (calls st))"
    using joined_uncaptured [OF j] by (simp add: first_wins_def)
  have l: "loopErr st = (case captures st of [] \<Rightarrow> None | x # xs \<Rightarrow> Some x)"
    using fw by (simp add: first_wins_def)
  have "\<exists>i g. (i, g, Some x) \<in> set (calls st)" if "loopErr st = Some x" for x
  proof -
    from that l have "x \<in> set (captures st)" by (auto split: list.splits)
    then have "x \<in># mset (captures st)" by simp
    then have "x \<in> set (errors_of (calls st))" unfolding m by simp
    then show ?thesis by (simp add: errors_of_set)
  qed
  moreover have "loopErr st = None \<longleftrightarrow> errors_of (calls st) = []"
  proof -
    have "loopErr st = None \<longleftrightarrow> captures st = []" using l by (auto split: list.splits)
    also have "\<dots> \<longleftrightarrow> mset (captures st) = {#}" by simp
    also have "\<dots> \<longleftrightarrow> errors_of (calls st) = []" unfolding m by simp
    finally show ?thesis .
  qed
  ultimately show ?thesis using fw m l by (simp add: first_wins_def)
qed

theorem For_first_error_wins_witness:
  "For (WithNumGoroutines (NewExecutor 8) 2) 4 (failing_on [0, 2]) 0 racing
     = Returns (For_run (WithNumGoroutines (NewExecutor 8) 2) 4 (failing_on [0, 2]) 0 racing) \<and>
   captures (For_run (WithNumGoroutines (NewExecutor 8) 2) 4 (failing_on [0, 2]) 0 racing) = [21, 0] \<and>
   loopErr (For_run (WithNumGoroutines (NewExecutor 8) 2) 4 (failing_on [0, 2]) 0 racing) = Some 21"
proof -
  have racing_joined:
    "joined (For_run (WithNumGoroutines (NewExecutor 8) 2) 4 (failing_on [0, 2]) 0 racing)"
    by code_simp
  have racing_captures:
    "captures (For_run (WithNumGoroutines (NewExecutor 8) 2) 4 (failing_on [0, 2]) 0 racing) = [21, 0]"
    by code_simp
  have r: "For (WithNumGoroutines (NewExecutor 8) 2) 4 (failing_on [0, 2]) 0 racing
     = Returns (For_run (WithNumGoroutines (NewExecutor 8) 2) 4 (failing_on [0, 2]) 0 racing)"
    by (rule For_joined [OF racing_joined]) (simp add: WithNumGoroutines_def wg_counter_def)
  from For_first_error_wins [OF r] racing_captures r show ?thesis by simp
qed

subsection \<open>ForWithContext returns, and what it returns\<close>

lemma ForWithContext_step_moves:
  assumes "g < length (workers st)" "pc (workers st ! g) \<noteq> Exited"
  shows "pc (workers (ForWithContext_step N b (Go g) st) ! g) \<noteq> pc (workers st ! g)"
proof (cases "pc (workers st ! g)")
  case AtNext
  with assms(1) show ?thesis
    by (simp add: ForWithContext_step.simps fetch_def record_action_def split: prod.splits)
next
  case (AtCheck i)
  with assms(1) show ?thesis
    by (simp add: ForWithContext_step.simps check_def record_action_def set_pc_def)
next
  case (AtBody i)
  with assms(1) show ?thesis
    by (simp add: ForWithContext_step.simps invoke_def record_action_def set_pc_def
        split: prod.splits option.splits)
next
  case (AtOnce e)
  with assms(1) show ?thesis
    by (simp add: ForWithContext_step.simps ForWithContext_once_def record_action_def set_pc_def)
next
  case Exited
  with assms(2) show ?thesis by simp
qed

lemma ForWithContext_step_effort:
  assumes "g < length (workers st)" "pc (workers st ! g) \<noteq> Exited" "made_for N st"
  shows "effort (ForWithContext_step N b (Go g) st) < effort st"
  using ForWithContext_step_acts [of N b "Go g" st] ForWithContext_step_moves [OF assms(1,2), of N b]
    acts_effort [of True N b st "ForWithContext_step N b (Go g) st"] assms(3)
  by auto

lemma ForWithContext_step_keeps:
  assumes "made_for N st"
  shows "made_for N (ForWithContext_step N b m st)"
  using ForWithContext_step_acts [of N b m st] assms
  by (auto dest: acts_made_for)

lemma ForWithContext_completes:
  "made_for N st \<Longrightarrow> \<exists>sched. joined (fold (ForWithContext_step N b) sched st)"
proof (induction "effort st" arbitrary: st rule: less_induct)
  case less
  show ?case
  proof (cases "joined st")
    case True
    then have "joined (fold (ForWithContext_step N b) [] st)" by simp
    then show ?thesis by blast
  next
    case False
    then obtain g where g: "g < length (workers st)" "pc (workers st ! g) \<noteq> Exited"
      using not_joined [of st] by auto
    let ?st = "ForWithContext_step N b (Go g) st"
    have "effort ?st < effort st"
      using g less.prems by (rule ForWithContext_step_effort)
    moreover have "made_for N ?st"
      using less.prems by (rule ForWithContext_step_keeps)
    ultimately obtain sched where "joined (fold (ForWithContext_step N b) sched ?st)"
      using less.hyps [of ?st] by auto
    then have "joined (fold (ForWithContext_step N b) (Go g # sched) st)" by simp
    then show ?thesis by blast
  qed
qed

lemma ForWithContext_run_made_for: "made_for N (ForWithContext_run e d N b s sched)"
  by (rule ForWithContext_run_induct [where P = "made_for N"])
    (simp_all add: made_for_start acts_made_for)

lemma ForWithContext_run_append:
  "ForWithContext_run e d N b s (sched @ sched')
     = fold (ForWithContext_step N b) sched' (ForWithContext_run e d N b s sched)"
  by (simp add: ForWithContext_run_def)

lemma ForWithContext_joined:
  assumes "joined (ForWithContext_run e d N b s sched)"
    and "wg_counter (numGoroutines e) = max 0 (numGoroutines e)"
  shows "ForWithContext e d N b s sched
    = Returns ((ForWithContext_run e d N b s sched)\<lparr>cancelled := True\<rparr>)"
proof -
  have "wg_counter (numGoroutines e) = int (length (workers (ForWithContext_run e d N b s sched)))"
    using assms(2) by (simp add: ForWithContext_run_length)
  with assms(1) have "wg_Wait (numGoroutines e) (ForWithContext_run e d N b s sched)
      = Returns (ForWithContext_run e d N b s sched)"
    by (rule wg_Wait_joined)
  then show ?thesis by (simp add: ForWithContext_def)
qed

lemma ForWithContext_returns:
  assumes "wg_counter (numGoroutines e) = max 0 (numGoroutines e)"
  shows "\<exists>sched' st. ForWithContext e d N b s (sched @ sched') = Returns st"
proof -
  obtain sched' where "joined (fold (ForWithContext_step N b) sched' (ForWithContext_run e d N b s sched))"
    using ForWithContext_completes [of N "ForWithContext_run e d N b s sched" b]
      ForWithContext_run_made_for [of N e d b s sched] by auto
  then have "joined (ForWithContext_run e d N b s (sched @ sched'))"
    by (simp add: ForWithContext_run_append)
  then have "ForWithContext e d N b s (sched @ sched')
      = Returns ((ForWithContext_run e d N b s (sched @ sched'))\<lparr>cancelled := True\<rparr>)"
    using assms by (rule ForWithContext_joined)
  then show ?thesis by blast
qed

lemma ForWithContext_Returns:
  assumes "ForWithContext e d N b s sched = Returns st"
  shows "st = (ForWithContext_run e d N b s sched)\<lparr>cancelled := True\<rparr>"
    and "joined (ForWithContext_run e d N b s sched)"
    and "wg_counter (numGoroutines e) = max 0 (numGoroutines e)"
proof -
  from assms obtain st0
    where r: "wg_Wait (numGoroutines e) (ForWithContext_run e d N b s sched) = Returns st0"
      and st: "st = st0\<lparr>cancelled := True\<rparr>"
    by (auto simp add: ForWithContext_def split: outcome.splits)
  show "st = (ForWithContext_run e d N b s sched)\<lparr>cancelled := True\<rparr>"
    using st wg_Wait_Returns(1) [OF r] by simp
  show "joined (ForWithContext_run e d N b s sched)" using wg_Wait_Returns(2) [OF r] .
  show "wg_counter (numGoroutines e) = max 0 (numGoroutines e)"
    using wg_Wait_Returns(3) [OF r] by (simp add: ForWithContext_run_length)
qed

lemma never_started_start: "never_started (start strategy n N True s)"
  by (simp add: never_started_def start_def spawn_def calls_def list_all_iff)

lemma acts_never_started: "acts True N b st st' \<Longrightarrow> never_started st \<Longrightarrow> never_started st'"
proof (induction rule: acts.induct)
  case (cancel st)
  then show ?case by (simp add: never_started_def log_append)
next
  case (fetch g st i gn c)
  then show ?case
    by (auto simp add: never_started_def log_append intro!: list_all_update)
next
  case (check g st i)
  then show ?case
    by (auto simp add: never_started_def log_append intro!: list_all_update)
next
  case (call g st i err s')
  then show ?case by (auto simp add: never_started_def list_all_length)
next
  case (once g st e)
  then show ?case by (auto simp add: never_started_def list_all_length)
qed

lemma ForWithContext_run_never_started: "never_started (ForWithContext_run e True N b s sched)"
  by (rule ForWithContext_run_induct [where P = never_started])
    (simp_all add: never_started_start acts_never_started)

text \<open>
  C10: \<^verbatim>\<open>ForWithContext\<close> returns nil or an error that an invocation of the body returned,
  never the context's own error. Called with a context that is already cancelled, it
  invokes the body for no index and returns nil; and whatever the schedule so far, the
  call can run to its return.
\<close>

theorem ForWithContext_returns_body_errors_only:
  assumes "ForWithContext e ctxDone N body s sched = Returns st"
  shows "(\<forall>x. loopErr st = Some x \<longrightarrow> (\<exists>i g. (i, g, Some x) \<in> set (calls st))) \<and>
    (loopErr st = None \<longleftrightarrow> errors_of (calls st) = []) \<and>
    (ctxDone \<longrightarrow> calls st = [] \<and> loopErr st = None) \<and>
    (\<forall>sched0. \<exists>sched' st'. ForWithContext e ctxDone N body s (sched0 @ sched') = Returns st')"
proof -
  let ?st = "ForWithContext_run e ctxDone N body s sched"
  note st = ForWithContext_Returns(1) [OF assms] and j = ForWithContext_Returns(2) [OF assms]
    and n = ForWithContext_Returns(3) [OF assms]
  have same: "loopErr st = loopErr ?st" "calls st = calls ?st"
    by (simp_all add: st calls_def)
  have fw: "first_wins ?st" by (rule ForWithContext_run_first_wins)
  then have m: "mset (captures ?st) = mset (errors_of (calls ?st))"
    using joined_uncaptured [OF j] by (simp add: first_wins_def)
  have l: "loopErr ?st = (case captures ?st of [] \<Rightarrow> None | x # xs \<Rightarrow> Some x)"
    using fw by (simp add: first_wins_def)
  have "\<exists>i g. (i, g, Some x) \<in> set (calls ?st)" if "loopErr ?st = Some x" for x
  proof -
    from that l have "x \<in> set (captures ?st)" by (auto split: list.splits)
    then have "x \<in># mset (captures ?st)" by simp
    then have "x \<in> set (errors_of (calls ?st))" unfolding m by simp
    then show ?thesis by (simp add: errors_of_set)
  qed
  moreover have "loopErr ?st = None \<longleftrightarrow> errors_of (calls ?st) = []"
  proof -
    have "loopErr ?st = None \<longleftrightarrow> captures ?st = []" using l by (auto split: list.splits)
    also have "\<dots> \<longleftrightarrow> mset (captures ?st) = {#}" by simp
    also have "\<dots> \<longleftrightarrow> errors_of (calls ?st) = []" unfolding m by simp
    finally show ?thesis .
  qed
  moreover have "calls ?st = [] \<and> loopErr ?st = None" if ctxDone
    using ForWithContext_run_never_started [of e N body s sched] that
    by (simp add: never_started_def)
  moreover have "\<exists>sched' st'. ForWithContext e ctxDone N body s (sched0 @ sched') = Returns st'"
    for sched0 using n by (rule ForWithContext_returns)
  ultimately show ?thesis unfolding same by blast
qed

theorem ForWithContext_returns_body_errors_only_witness:
  "ForWithContext (WithNumGoroutines (NewExecutor 8) 2) True 4 telling 0 [Go 1, Go 0, Go 0, Go 1]
     = Returns ((ForWithContext_run (WithNumGoroutines (NewExecutor 8) 2) True 4 telling 0
         [Go 1, Go 0, Go 0, Go 1])\<lparr>cancelled := True\<rparr>) \<and>
   calls ((ForWithContext_run (WithNumGoroutines (NewExecutor 8) 2) True 4 telling 0
         [Go 1, Go 0, Go 0, Go 1])\<lparr>cancelled := True\<rparr>) = [] \<and>
   loopErr ((ForWithContext_run (WithNumGoroutines (NewExecutor 8) 2) True 4 telling 0
         [Go 1, Go 0, Go 0, Go 1])\<lparr>cancelled := True\<rparr>) = None"
proof -
  have cancelled_before_joined:
    "joined (ForWithContext_run (WithNumGoroutines (NewExecutor 8) 2) True 4 telling 0
       [Go 1, Go 0, Go 0, Go 1])"
    by code_simp
  have r: "ForWithContext (WithNumGoroutines (NewExecutor 8) 2) True 4 telling 0
      [Go 1, Go 0, Go 0, Go 1]
     = Returns ((ForWithContext_run (WithNumGoroutines (NewExecutor 8) 2) True 4 telling 0
         [Go 1, Go 0, Go 0, Go 1])\<lparr>cancelled := True\<rparr>)"
    by (rule ForWithContext_joined [OF cancelled_before_joined]) (simp add: WithNumGoroutines_def wg_counter_def)
  from ForWithContext_returns_body_errors_only [OF r] r show ?thesis by simp
qed

subsection \<open>What the tests of the context see\<close>

lemma cancelled_after_Cons: "cancelled_after d (ev # evs) = cancelled_after (d \<or> cancels ev) evs"
  by (auto simp add: cancelled_after_def)

lemma cancelled_after_append:
  "cancelled_after d (xs @ ys) = cancelled_after (cancelled_after d xs) ys"
  by (auto simp add: cancelled_after_def)

lemma cancelled_after_mono: "cancelled_after d xs \<Longrightarrow> cancelled_after d (xs @ ys)"
  by (auto simp add: cancelled_after_def)

lemma checks_exact_append:
  "checks_exact d (xs @ ys) = (checks_exact d xs \<and> checks_exact (cancelled_after d xs) ys)"
proof (induction d xs rule: checks_exact.induct)
  case (1 d)
  show ?case by (simp add: cancelled_after_def)
qed (simp_all add: cancelled_after_Cons)

lemma checks_exact_at:
  "checks_exact d (xs @ Act g (Checked i c) # ys) \<Longrightarrow> c = cancelled_after d xs"
  by (simp add: checks_exact_append)

lemma ctx_tracked_start: "ctx_tracked d (start strategy n N d s)"
  by (simp add: ctx_tracked_def start_def cancelled_after_def)

lemma acts_ctx_tracked: "acts True N b st st' \<Longrightarrow> ctx_tracked d st \<Longrightarrow> ctx_tracked d st'"
  by (induction rule: acts.induct)
    (auto simp add: ctx_tracked_def checks_exact_append cancelled_after_append cancelled_after_def)

lemma log_ids_start: "log_ids (start strategy n N d s)"
  by (simp add: log_ids_def start_def)

lemma acts_log_ids: "acts w N b st st' \<Longrightarrow> log_ids st \<Longrightarrow> log_ids st'"
  by (induction rule: acts.induct) (auto simp add: log_ids_def list_all_iff split: event.splits)

lemma own_foreign:
  "list_all (\<lambda>ev. case ev of Act g a \<Rightarrow> g < n | CtxCancelled \<Rightarrow> True) evs \<Longrightarrow> n \<le> k \<Longrightarrow>
   own k evs = []"
  by (induction k evs rule: own.induct) auto

lemma own_split:
  "own g evs = as @ a # bs \<Longrightarrow>
   \<exists>xs ys. evs = xs @ Act g a # ys \<and> own g xs = as \<and> own g ys = bs"
proof (induction g evs arbitrary: as rule: own.induct)
  case (1 g)
  then show ?case by simp
next
  case (2 g g' a' evs)
  show ?case
  proof (cases "g' = g")
    case False
    with 2 obtain xs ys where "evs = xs @ Act g a # ys" "own g xs = as" "own g ys = bs"
      by fastforce
    with False have "Act g' a' # evs = (Act g' a' # xs) @ Act g a # ys \<and>
        own g (Act g' a' # xs) = as \<and> own g ys = bs" by simp
    then show ?thesis by blast
  next
    case True
    show ?thesis
    proof (cases as)
      case Nil
      with True "2.prems" have "Act g' a' # evs = [] @ Act g a # evs \<and> own g [] = as \<and> own g evs = bs"
        by simp
      then show ?thesis by blast
    next
      case (Cons a0 as')
      with True "2.prems" have "own g evs = as' @ a # bs" "a0 = a'" by simp_all
      with True "2.IH"(1) obtain xs ys where "evs = xs @ Act g a # ys" "own g xs = as'" "own g ys = bs"
        by blast
      with True Cons \<open>a0 = a'\<close> have "Act g' a' # evs = (Act g' a' # xs) @ Act g a # ys \<and>
        own g (Act g' a' # xs) = as \<and> own g ys = bs" by simp
      then show ?thesis by blast
    qed
  qed
next
  case (3 g evs)
  then obtain xs ys where "evs = xs @ Act g a # ys" "own g xs = as" "own g ys = bs"
    by fastforce
  then have "CtxCancelled # evs = (CtxCancelled # xs) @ Act g a # ys \<and>
        own g (CtxCancelled # xs) = as \<and> own g ys = bs" by simp
  then show ?case by blast
qed

lemma own_last:
  assumes "own g evs \<noteq> []"
  shows "\<exists>xs ys. evs = xs @ Act g (last (own g evs)) # ys \<and> own g ys = []"
proof -
  have "own g evs = butlast (own g evs) @ last (own g evs) # []"
    using assms by simp
  from own_split [OF this] show ?thesis by blast
qed

lemma follows_all:
  assumes "in_order w N st" "log_ids st"
  shows "follows w N AtNext (own g (log st))"
proof (cases "g < length (workers st)")
  case True
  with assms(1) show ?thesis by (simp add: in_order_def list_all_iff)
next
  case False
  then have "own g (log st) = []"
    using own_foreign [of "length (workers st)" "log st" g] assms(2) by (simp add: log_ids_def)
  then show ?thesis by simp
qed

lemma follows_mid:
  "follows w N p (as @ a # bs) \<Longrightarrow>
   follows w N p as \<and> allowed (point_after w N p as) a \<and> follows w N (next_point w N a) bs"
  by (simp add: follows_append)

lemma allowed_AtOnce: "allowed (AtOnce x) a \<Longrightarrow> \<exists>won. a = Captured x won"
  by (cases a) simp_all

lemma allowed_Called: "allowed p (Called i err) \<Longrightarrow> p = AtBody i"
  by (cases p) simp_all

lemma allowed_Captured: "allowed p (Captured x won) \<Longrightarrow> p = AtOnce x"
  by (cases p) simp_all

lemma follows_Exited: "follows w N Exited h \<Longrightarrow> h = []"
  by (cases h) simp_all

lemma next_point_AtBody_ctx:
  "next_point True N a = AtBody i \<Longrightarrow> a = Checked i False"
  by (cases a) (auto simp add: next_point_def split: if_splits option.splits)

lemma next_point_AtBody:
  "next_point False N a = AtBody i \<Longrightarrow> (a = Fetched i \<and> i < N) \<or> a = Checked i False"
  by (cases a) (auto simp add: next_point_def split: if_splits option.splits)

lemma next_point_AtOnce:
  "next_point w N a = AtOnce x \<Longrightarrow> \<exists>i. a = Called i (Some x)"
  by (cases a) (auto simp add: next_point_def split: if_splits option.splits)

lemma next_point_no_check: "next_point False N a \<noteq> AtCheck j"
  by (cases a) (auto simp add: next_point_def split: if_splits option.splits)

lemma point_after_last:
  "point_after w N AtNext h = p \<Longrightarrow> p \<noteq> AtNext \<Longrightarrow> h \<noteq> [] \<and> next_point w N (last h) = p"
  by (auto simp add: point_after_def)

lemma allowed_Checked: "allowed p (Checked i c) \<Longrightarrow> p = AtCheck i"
  by (cases p) simp_all

lemma point_AtBody_ctx:
  assumes "point_after True N AtNext h = AtBody i"
  shows "h \<noteq> []" and "last h = Checked i False"
  using point_after_last [OF assms] next_point_AtBody_ctx [of N "last h" i] by simp_all

lemma point_AtOnce:
  assumes "point_after w N AtNext h = AtOnce x"
  shows "h \<noteq> []" and "\<exists>i. last h = Called i (Some x)"
  using point_after_last [OF assms] next_point_AtOnce [of w N "last h" x] by simp_all

lemma point_AtBody_For:
  assumes "follows False N AtNext h" "point_after False N AtNext h = AtBody i"
  shows "h \<noteq> []" and "last h = Fetched i \<and> i < N"
proof -
  from point_after_last [OF assms(2)] have ne: "h \<noteq> []"
    and np: "next_point False N (last h) = AtBody i" by simp_all
  show "h \<noteq> []" by (rule ne)
  have "last h \<noteq> Checked i False"
  proof
    assume c: "last h = Checked i False"
    have "follows False N AtNext (butlast h @ [last h])" using assms(1) ne by simp
    then have "allowed (point_after False N AtNext (butlast h)) (Checked i False)"
      unfolding follows_snoc c by simp
    then have "point_after False N AtNext (butlast h) = AtCheck i" by (rule allowed_Checked)
    from point_after_last [OF this] show False using next_point_no_check by auto
  qed
  with next_point_AtBody [OF np] show "last h = Fetched i \<and> i < N" by simp
qed


lemma log_own:
  "log st = xs @ Act g a # ys \<Longrightarrow> own g (log st) = own g xs @ a # own g ys"
  by (simp add: own_append)

lemma call_after_check:
  assumes "in_order True N st" "log_ids st" "ctx_tracked d st"
    and "log st = xs @ Act g (Called i err) # ys"
  shows "\<exists>xs1 xs2. xs = xs1 @ Act g (Checked i False) # xs2 \<and> own g xs2 = [] \<and>
    \<not> cancelled_after d xs1"
proof -
  have "follows True N AtNext (own g xs @ Called i err # own g ys)"
    using follows_all [OF assms(1,2), of g] log_own [OF assms(4)] by simp
  from follows_mid [OF this] have "point_after True N AtNext (own g xs) = AtBody i"
    using allowed_Called by blast
  then have "own g xs \<noteq> []" "last (own g xs) = Checked i False"
    by (rule point_AtBody_ctx)+
  then obtain xs1 xs2 where x: "xs = xs1 @ Act g (Checked i False) # xs2" "own g xs2 = []"
    using own_last [of g xs] by auto
  have "checks_exact d (xs1 @ Act g (Checked i False) # (xs2 @ Act g (Called i err) # ys))"
    using assms(3,4) x(1) by (simp add: ctx_tracked_def)
  then have "False = cancelled_after d xs1" by (rule checks_exact_at)
  with x show ?thesis by blast
qed

lemma check_sees:
  assumes "in_order True N st" "log_ids st" "ctx_tracked d st"
    and "log st = xs @ Act g (Checked i c) # ys"
  shows "c = cancelled_after d xs \<and> (c \<longrightarrow> own g ys = [])"
proof -
  have "checks_exact d (xs @ Act g (Checked i c) # ys)"
    using assms(3,4) by (simp add: ctx_tracked_def)
  then have c: "c = cancelled_after d xs" by (rule checks_exact_at)
  have "follows True N AtNext (own g xs @ Checked i c # own g ys)"
    using follows_all [OF assms(1,2), of g] log_own [OF assms(4)] by simp
  from follows_mid [OF this] have "follows True N (next_point True N (Checked i c)) (own g ys)"
    by simp
  then have "own g ys = []" if c
    using that follows_Exited [of True N "own g ys"] by (simp add: next_point_def)
  with c show ?thesis by blast
qed

lemma length_wins_of: "length (wins_of evs) = length (captures_of evs)"
  by (induction evs rule: wins_of.induct) simp_all

lemma first_capture_wins:
  assumes "wins_of (xs @ Act g (Captured x won) # ys) = map (\<lambda>k. k = 0) [0..<n]"
  shows "won = (captures_of xs = [])"
proof -
  let ?m = "length (wins_of xs)"
  have "?m < n"
    using arg_cong [OF assms, of length] by (simp add: wins_of_append)
  then have "map (\<lambda>k. k = 0) [0..<n] ! ?m = (?m = 0)" by simp
  moreover have "wins_of (xs @ Act g (Captured x won) # ys) ! ?m = won"
    by (simp add: wins_of_append)
  ultimately have "won = (?m = 0)" using assms by simp
  then show ?thesis by (simp add: length_wins_of)
qed

lemma capture_after_error:
  assumes "in_order w N st" "log_ids st" "first_wins st"
    and "log st = xs @ Act g (Captured x won) # ys"
  shows "won = (captures_of xs = [])"
    and "\<exists>xs1 xs2 i. xs = xs1 @ Act g (Called i (Some x)) # xs2 \<and> own g xs2 = []"
    and "own g ys = []"
proof -
  show "won = (captures_of xs = [])"
    using assms(3,4) first_capture_wins [of xs g x won ys] by (simp add: first_wins_def)
  have f: "follows w N AtNext (own g xs @ Captured x won # own g ys)"
    using follows_all [OF assms(1,2), of g] log_own [OF assms(4)] by simp
  note m = follows_mid [OF f]
  from m have "point_after w N AtNext (own g xs) = AtOnce x"
    using allowed_Captured [of "point_after w N AtNext (own g xs)" x won] by simp
  from point_AtOnce [OF this] obtain i where
    ne: "own g xs \<noteq> []" and l: "last (own g xs) = Called i (Some x)"
    by blast
  from own_last [OF ne] obtain xs1 xs2 where
    "xs = xs1 @ Act g (last (own g xs)) # xs2" "own g xs2 = []" by blast
  with l have "xs = xs1 @ Act g (Called i (Some x)) # xs2 \<and> own g xs2 = []" by simp
  then show "\<exists>xs1 xs2 i. xs = xs1 @ Act g (Called i (Some x)) # xs2 \<and> own g xs2 = []"
    by blast
  from m have "follows w N Exited (own g ys)" by (simp add: next_point_def)
  then show "own g ys = []" by (rule follows_Exited)
qed

lemma ForWithContext_run_tracked:
  "in_order True N (ForWithContext_run e d N b s sched) \<and>
   log_ids (ForWithContext_run e d N b s sched) \<and>
   ctx_tracked d (ForWithContext_run e d N b s sched)"
proof (rule ForWithContext_run_induct
      [where P = "\<lambda>st. in_order True N st \<and> log_ids st \<and> ctx_tracked d st"])
  show "in_order True N (start (strategy_of e) (numGoroutines e) N d s) \<and>
    log_ids (start (strategy_of e) (numGoroutines e) N d s :: ('a, 'b) invocation) \<and>
    ctx_tracked d (start (strategy_of e) (numGoroutines e) N d s :: ('a, 'b) invocation)"
    by (simp add: in_order_start log_ids_start ctx_tracked_start)
next
  fix st st' :: "('a, 'b) invocation"
  assume "in_order True N st \<and> log_ids st \<and> ctx_tracked d st" "acts True N b st st'"
  then show "in_order True N st' \<and> log_ids st' \<and> ctx_tracked d st'"
    using acts_in_order [of True N b st st'] acts_log_ids [of True N b st st']
      acts_ctx_tracked [of N b st st' d] by simp
qed

subsection \<open>Cooperative cancellation\<close>

lemma ForWithContext_run_facts:
  "in_order True N (ForWithContext_run e d N b s sched)"
  "log_ids (ForWithContext_run e d N b s sched)"
  "ctx_tracked d (ForWithContext_run e d N b s sched)"
  using ForWithContext_run_tracked [of N e d b s sched] by simp_all

lemma fold_ForWithContext_induct:
  assumes "P st0"
    and "\<And>st st'. P st \<Longrightarrow> acts True N b st st' \<Longrightarrow> P st'"
  shows "P (fold (ForWithContext_step N b) sched st0)"
proof (induction sched rule: rev_induct)
  case Nil
  show ?case using assms(1) by simp
next
  case (snoc m sched)
  show ?case
    using ForWithContext_step_acts [of N b m "fold (ForWithContext_step N b) sched st0"]
      snoc assms(2) by auto
qed

lemma acts_committed:
  "acts True N b st st' \<Longrightarrow> cancelled st \<Longrightarrow>
   cancelled st' \<and> committed g st' \<le> committed g st"
proof (induction rule: acts.induct)
  case (cancel st)
  then show ?case by (simp add: committed_def own_append)
next
  case (fetch k st i gn c)
  then show ?case
    by (cases "k = g") (simp_all add: committed_def own_append invoked_of_append)
next
  case (check k st i)
  then show ?case
    by (cases "k = g") (simp_all add: committed_def own_append invoked_of_append)
next
  case (call k st i err s')
  then show ?case
    by (cases "k = g")
      (simp_all add: committed_def own_append invoked_of_append split: option.splits)
next
  case (once k st e)
  then show ?case
    by (cases "k = g") (simp_all add: committed_def own_append invoked_of_append)
qed

lemma one_more_call:
  assumes "cancelled st0"
  shows "length (invoked_of (own g (log (fold (ForWithContext_step N b) sched st0))))
    \<le> length (invoked_of (own g (log st0))) + 1"
proof -
  have "cancelled (fold (ForWithContext_step N b) sched st0) \<and>
      committed g (fold (ForWithContext_step N b) sched st0) \<le> committed g st0"
  proof (rule fold_ForWithContext_induct
      [where P = "\<lambda>st. cancelled st \<and> committed g st \<le> committed g st0"])
    show "cancelled st0 \<and> committed g st0 \<le> committed g st0" using assms by simp
  next
    fix st st' :: "('a, 'b) invocation"
    assume "cancelled st \<and> committed g st \<le> committed g st0" "acts True N b st st'"
    then show "cancelled st' \<and> committed g st' \<le> committed g st0"
      using acts_committed [of N b st st' g] by auto
  qed
  then have "committed g (fold (ForWithContext_step N b) sched st0) \<le> committed g st0" by simp
  moreover have "length (invoked_of (own g (log st))) \<le> committed g st" for st :: "('a, 'b) invocation"
    by (simp add: committed_def)
  moreover have "committed g st0 \<le> length (invoked_of (own g (log st0))) + 1"
    by (simp add: committed_def split: point.splits)
  ultimately show ?thesis
    using le_trans by blast
qed

lemma error_then_once:
  assumes "in_order w N st" "log_ids st"
    and "log st = xs @ Act g (Called i (Some x)) # ys"
  shows "g < length (workers st)"
    and "(own g ys = [] \<and> pc (workers st ! g) = AtOnce x) \<or>
      (\<exists>won. own g ys = [Captured x won] \<and> pc (workers st ! g) = Exited)"
proof -
  show g: "g < length (workers st)" using assms(2,3) by (simp add: log_ids_def)
  let ?h = "own g xs @ Called i (Some x) # own g ys"
  have h: "own g (log st) = ?h" by (rule log_own [OF assms(3)])
  have f: "follows w N AtNext ?h"
    using follows_all [OF assms(1,2), of g] h by simp
  from follows_mid [OF f] have fy: "follows w N (AtOnce x) (own g ys)"
    by (simp add: next_point_def)
  have p: "pc (workers st ! g) = point_after w N AtNext ?h"
    using assms(1) g h by (simp add: in_order_def list_all_iff)
  show "(own g ys = [] \<and> pc (workers st ! g) = AtOnce x) \<or>
      (\<exists>won. own g ys = [Captured x won] \<and> pc (workers st ! g) = Exited)"
  proof (cases "own g ys")
    case Nil
    then have "point_after w N AtNext ?h = AtOnce x"
      by (simp add: point_after_def next_point_def)
    with p Nil show ?thesis by simp
  next
    case (Cons a rest)
    with fy have al: "allowed (AtOnce x) a" and fr: "follows w N (next_point w N a) rest"
      by simp_all
    from allowed_AtOnce [OF al] obtain won where a: "a = Captured x won" by blast
    with fr have r: "rest = []"
      using follows_Exited [of w N rest] by (simp add: next_point_def)
    have "point_after w N AtNext ?h = Exited"
      using Cons a r by (simp add: point_after_def next_point_def)
    with p Cons a r show ?thesis by simp
  qed
qed

lemma captures_of_mem: "Act g (Captured x won) \<in> set evs \<Longrightarrow> captures_of evs \<noteq> []"
  by (induction evs rule: captures_of.induct) auto

text \<open>
  C3: in every state a call of \<^verbatim>\<open>ForWithContext\<close> reaches, under every schedule and with
  the caller's context cancelled at any moment:
  every invocation of the body comes right after its goroutine's test of the context for
  the same index, with no action of that goroutine in between, and the test found the
  context not cancelled; every test finds exactly what the events before it have made of
  the context, and a goroutine that finds it cancelled does nothing more; a call of
  \<^verbatim>\<open>errOnce.Do\<close> comes right after the failed invocation of its goroutine, only the first
  one assigns the slot, its goroutine does nothing more, and every later test of any
  goroutine finds the context cancelled; once an error is captured the context is
  cancelled and the slot holds the first captured error; and from a state in which the
  context is cancelled on, however the call goes on, a goroutine invokes the body at most
  once more (for the index whose test it had passed).
  A goroutine whose invocation of the body has failed stands before \<^verbatim>\<open>errOnce.Do\<close> until
  it has called it, and that call is all it does afterwards. Its next action is that
  call: it records the call with the error, assigns the error to the slot when no error
  has been captured before, leaves the context cancelled and returns. When the call of
  \<^verbatim>\<open>ForWithContext\<close> returns, every failed invocation has been followed by its
  goroutine's \<^verbatim>\<open>errOnce.Do\<close>, the context is cancelled and the slot holds the first
  captured error. And with a count that the counter of the wait group holds, from 0 to
  below \<open>2\<^sup>3\<^sup>1\<close>, the call does return: every schedule can be continued to the return.
\<close>

theorem ForWithContext_cancellation:
  assumes "st = ForWithContext_run e ctxDone N body s sched"
  shows "(\<forall>xs g i err ys. log st = xs @ Act g (Called i err) # ys \<longrightarrow>
      (\<exists>xs1 xs2. xs = xs1 @ Act g (Checked i False) # xs2 \<and> own g xs2 = [] \<and>
         \<not> cancelled_after ctxDone xs1)) \<and>
    (\<forall>xs g i c ys. log st = xs @ Act g (Checked i c) # ys \<longrightarrow>
      c = cancelled_after ctxDone xs \<and> (c \<longrightarrow> own g ys = [])) \<and>
    (\<forall>xs g x won ys. log st = xs @ Act g (Captured x won) # ys \<longrightarrow>
      won = (captures_of xs = []) \<and>
      (\<exists>xs1 xs2 i. xs = xs1 @ Act g (Called i (Some x)) # xs2 \<and> own g xs2 = []) \<and>
      own g ys = [] \<and>
      (\<forall>ys1 g' j c ys2. ys = ys1 @ Act g' (Checked j c) # ys2 \<longrightarrow> c \<and> own g' ys2 = [])) \<and>
    (captures st \<noteq> [] \<longrightarrow> cancelled st \<and> loopErr st = Some (hd (captures st))) \<and>
    (cancelled st \<longrightarrow>
       (\<forall>g sched'.
          length (invoked_of (own g (log (ForWithContext_run e ctxDone N body s (sched @ sched')))))
            \<le> length (invoked_of (own g (log st))) + 1)) \<and>
    (\<forall>xs g i x ys. log st = xs @ Act g (Called i (Some x)) # ys \<longrightarrow>
      g < length (workers st) \<and>
      ((own g ys = [] \<and> pc (workers st ! g) = AtOnce x) \<or>
       (\<exists>won. own g ys = [Captured x won] \<and> pc (workers st ! g) = Exited))) \<and>
    (\<forall>g x. g < length (workers st) \<and> pc (workers st ! g) = AtOnce x \<longrightarrow>
      log (ForWithContext_run e ctxDone N body s (sched @ [Go g]))
        = log st @ [Act g (Captured x (captures st = []))] \<and>
      loopErr (ForWithContext_run e ctxDone N body s (sched @ [Go g]))
        = (if captures st = [] then Some x else loopErr st) \<and>
      cancelled (ForWithContext_run e ctxDone N body s (sched @ [Go g])) \<and>
      pc (workers (ForWithContext_run e ctxDone N body s (sched @ [Go g])) ! g) = Exited) \<and>
    (\<forall>st'. ForWithContext e ctxDone N body s sched = Returns st' \<longrightarrow>
      cancelled st' \<and>
      (\<forall>xs g i x ys. log st' = xs @ Act g (Called i (Some x)) # ys \<longrightarrow>
         (\<exists>won. own g ys = [Captured x won]) \<and> loopErr st' = Some (hd (captures st')))) \<and>
    (0 \<le> numGoroutines e \<and> numGoroutines e < 2 ^ 31 \<longrightarrow>
      (\<exists>sched' st'. ForWithContext e ctxDone N body s (sched @ sched') = Returns st'))"
proof -
  have io: "in_order True N st" and ids: "log_ids st" and ct: "ctx_tracked ctxDone st"
    unfolding assms by (rule ForWithContext_run_facts)+
  have fw: "first_wins st" unfolding assms by (rule ForWithContext_run_first_wins)
  have A: "\<exists>xs1 xs2. xs = xs1 @ Act g (Checked i False) # xs2 \<and> own g xs2 = [] \<and>
         \<not> cancelled_after ctxDone xs1"
    if "log st = xs @ Act g (Called i err) # ys" for xs g i err ys
    using io ids ct that by (rule call_after_check)
  have B: "c = cancelled_after ctxDone xs \<and> (c \<longrightarrow> own g ys = [])"
    if "log st = xs @ Act g (Checked i c) # ys" for xs g i c ys
    using io ids ct that by (rule check_sees)
  have C: "won = (captures_of xs = []) \<and>
      (\<exists>xs1 xs2 i. xs = xs1 @ Act g (Called i (Some x)) # xs2 \<and> own g xs2 = []) \<and>
      own g ys = [] \<and>
      (\<forall>ys1 g' j c ys2. ys = ys1 @ Act g' (Checked j c) # ys2 \<longrightarrow> c \<and> own g' ys2 = [])"
    if l: "log st = xs @ Act g (Captured x won) # ys" for xs g x won ys
  proof -
    note cap = capture_after_error [OF io ids fw l]
    have "c \<and> own g' ys2 = []" if y: "ys = ys1 @ Act g' (Checked j c) # ys2" for ys1 g' j c ys2
    proof -
      have "log st = (xs @ Act g (Captured x won) # ys1) @ Act g' (Checked j c) # ys2"
        using l y by simp
      from B [OF this] have "c = cancelled_after ctxDone (xs @ Act g (Captured x won) # ys1)"
        and "c \<longrightarrow> own g' ys2 = []" by simp_all
      moreover have "cancelled_after ctxDone (xs @ Act g (Captured x won) # ys1)"
        by (simp add: cancelled_after_def)
      ultimately show ?thesis by simp
    qed
    with cap show ?thesis by blast
  qed
  have D: "cancelled st \<and> loopErr st = Some (hd (captures st))" if "captures st \<noteq> []"
    using fw ct that by (auto simp add: first_wins_def ctx_tracked_def split: list.splits)
  have E: "length (invoked_of (own g (log (ForWithContext_run e ctxDone N body s (sched @ sched')))))
      \<le> length (invoked_of (own g (log st))) + 1" if "cancelled st" for g sched'
    using one_more_call [of st g N body sched'] that
    unfolding assms ForWithContext_run_append by simp
  have F: "g < length (workers st) \<and>
      ((own g ys = [] \<and> pc (workers st ! g) = AtOnce x) \<or>
       (\<exists>won. own g ys = [Captured x won] \<and> pc (workers st ! g) = Exited))"
    if "log st = xs @ Act g (Called i (Some x)) # ys" for xs g i x ys
    using error_then_once [OF io ids that] by simp
  have G: "log (ForWithContext_run e ctxDone N body s (sched @ [Go g]))
        = log st @ [Act g (Captured x (captures st = []))] \<and>
      loopErr (ForWithContext_run e ctxDone N body s (sched @ [Go g]))
        = (if captures st = [] then Some x else loopErr st) \<and>
      cancelled (ForWithContext_run e ctxDone N body s (sched @ [Go g])) \<and>
      pc (workers (ForWithContext_run e ctxDone N body s (sched @ [Go g])) ! g) = Exited"
    if "g < length (workers st) \<and> pc (workers st ! g) = AtOnce x" for g x
  proof -
    have r: "ForWithContext_run e ctxDone N body s (sched @ [Go g])
        = ForWithContext_step N body (Go g) st"
      unfolding assms by (simp add: ForWithContext_run_append)
    have o: "errOnce st = (captures st \<noteq> [])" using fw by (simp add: first_wins_def)
    have c: "errOnce st \<longrightarrow> cancelled st" using ct by (auto simp add: ctx_tracked_def)
    from that have g: "g < length (workers st)" and p: "pc (workers st ! g) = AtOnce x"
      by simp_all
    have "log (ForWithContext_step N body (Go g) st)
        = log st @ [Act g (Captured x (\<not> errOnce st))]"
      and "loopErr (ForWithContext_step N body (Go g) st)
        = (if errOnce st then loopErr st else Some x)"
      and "cancelled (ForWithContext_step N body (Go g) st) = (cancelled st \<or> \<not> errOnce st)"
      and "pc (workers (ForWithContext_step N body (Go g) st) ! g) = Exited"
      using g p
      by (simp_all add: ForWithContext_step.simps ForWithContext_once_def record_action_def
          set_pc_def)
    then show ?thesis
      unfolding r using o c by auto
  qed
  have H: "cancelled st' \<and>
      (\<forall>xs g i x ys. log st' = xs @ Act g (Called i (Some x)) # ys \<longrightarrow>
         (\<exists>won. own g ys = [Captured x won]) \<and> loopErr st' = Some (hd (captures st')))"
    if r: "ForWithContext e ctxDone N body s sched = Returns st'" for st'
  proof -
    have st': "st' = st\<lparr>cancelled := True\<rparr>" and j: "joined st"
      unfolding assms using ForWithContext_Returns(1,2) [OF r] by simp_all
    have "(\<exists>won. own g ys = [Captured x won]) \<and> loopErr st' = Some (hd (captures st'))"
      if l: "log st' = xs @ Act g (Called i (Some x)) # ys" for xs g i x ys
    proof -
      from l have l': "log st = xs @ Act g (Called i (Some x)) # ys" by (simp add: st')
      from F [OF l'] have g: "g < length (workers st)"
        and d: "(own g ys = [] \<and> pc (workers st ! g) = AtOnce x) \<or>
          (\<exists>won. own g ys = [Captured x won] \<and> pc (workers st ! g) = Exited)"
        by simp_all
      have "pc (workers st ! g) = Exited"
        using j g by (simp add: joined_def list_all_length)
      with d obtain won where w: "own g ys = [Captured x won]" by auto
      then have "Captured x won \<in> set (own g ys)" by simp
      then have "Act g (Captured x won) \<in> set (log st)" by (simp add: own_mem l')
      then have "captures st \<noteq> []" unfolding captures_def by (rule captures_of_mem)
      from D [OF this] have "loopErr st' = Some (hd (captures st'))"
        by (simp add: st' captures_def)
      with w show ?thesis by blast
    qed
    then show ?thesis by (simp add: st')
  qed
  have I: "\<exists>sched' st'. ForWithContext e ctxDone N body s (sched @ sched') = Returns st'"
    if "0 \<le> numGoroutines e \<and> numGoroutines e < 2 ^ 31"
  proof (rule ForWithContext_returns)
    show "wg_counter (numGoroutines e) = max 0 (numGoroutines e)"
      using that by (intro wg_counter_max) simp_all
  qed
  from A B C D E F G H I show ?thesis by blast
qed

theorem ForWithContext_cancellation_witness:
  "log (ForWithContext_run (WithNumGoroutines (NewExecutor 8) 2) False 4 telling 0 cancelling)
     = [Act 0 (Fetched 0), Act 0 (Checked 0 False), Act 0 (Called 0 None),
        Act 1 (Fetched 2), Act 1 (Checked 2 False),
        Act 0 (Fetched 1), Act 0 (Checked 1 False), Act 0 (Called 1 (Some False)),
        Act 0 (Captured False True),
        Act 1 (Called 2 None), Act 1 (Fetched 3)] @ Act 1 (Checked 3 True) # [] \<and>
   cancelled_after False
       [Act 0 (Fetched 0), Act 0 (Checked 0 False), Act 0 (Called 0 None),
        Act 1 (Fetched 2), Act 1 (Checked 2 False),
        Act 0 (Fetched 1), Act 0 (Checked 1 False), Act 0 (Called 1 (Some False)),
        Act 0 (Captured False True),
        Act 1 (Called 2 None), Act 1 (Fetched 3)] \<and>
   ForWithContext (WithNumGoroutines (NewExecutor 8) 2) False 4 telling 0 cancelling
     = Returns ((ForWithContext_run (WithNumGoroutines (NewExecutor 8) 2) False 4 telling 0
         cancelling)\<lparr>cancelled := True\<rparr>) \<and>
   loopErr (ForWithContext_run (WithNumGoroutines (NewExecutor 8) 2) False 4 telling 0 cancelling)
     = Some False \<and>
   pc (workers (ForWithContext_run (WithNumGoroutines (NewExecutor 8) 2) False 4 telling 0
       [Go 0, Go 0, Go 0, Go 1, Go 1, Go 0, Go 0, Go 0]) ! 0) = AtOnce False \<and>
   \<not> cancelled (ForWithContext_run (WithNumGoroutines (NewExecutor 8) 2) False 4 telling 0
       [Go 0, Go 0, Go 0, Go 1, Go 1, Go 0, Go 0, Go 0]) \<and>
   cancelled (ForWithContext_run (WithNumGoroutines (NewExecutor 8) 2) False 4 telling 0
       ([Go 0, Go 0, Go 0, Go 1, Go 1, Go 0, Go 0, Go 0] @ [Go 0])) \<and>
   loopErr (ForWithContext_run (WithNumGoroutines (NewExecutor 8) 2) False 4 telling 0
       ([Go 0, Go 0, Go 0, Go 1, Go 1, Go 0, Go 0, Go 0] @ [Go 0])) = Some False \<and>
   (\<exists>sched' st'. ForWithContext (WithNumGoroutines (NewExecutor 8) 2) False 4 telling 0
       ([Go 0, Go 0, Go 0, Go 1, Go 1, Go 0, Go 0, Go 0] @ sched') = Returns st')"
proof -
  have failed:
    "0 < length (workers (ForWithContext_run (WithNumGoroutines (NewExecutor 8) 2) False 4 telling 0
       [Go 0, Go 0, Go 0, Go 1, Go 1, Go 0, Go 0, Go 0])) \<and>
     pc (workers (ForWithContext_run (WithNumGoroutines (NewExecutor 8) 2) False 4 telling 0
       [Go 0, Go 0, Go 0, Go 1, Go 1, Go 0, Go 0, Go 0]) ! 0) = AtOnce False"
    "\<not> cancelled (ForWithContext_run (WithNumGoroutines (NewExecutor 8) 2) False 4 telling 0
       [Go 0, Go 0, Go 0, Go 1, Go 1, Go 0, Go 0, Go 0])"
    "captures (ForWithContext_run (WithNumGoroutines (NewExecutor 8) 2) False 4 telling 0
       [Go 0, Go 0, Go 0, Go 1, Go 1, Go 0, Go 0, Go 0]) = []"
    by code_simp+
  have cancelling_log:
    "log (ForWithContext_run (WithNumGoroutines (NewExecutor 8) 2) False 4 telling 0 cancelling)
       = [Act 0 (Fetched 0), Act 0 (Checked 0 False), Act 0 (Called 0 None),
          Act 1 (Fetched 2), Act 1 (Checked 2 False),
          Act 0 (Fetched 1), Act 0 (Checked 1 False), Act 0 (Called 1 (Some False)),
          Act 0 (Captured False True),
          Act 1 (Called 2 None), Act 1 (Fetched 3)] @ Act 1 (Checked 3 True) # []"
    by code_simp
  have cancelling_joined:
    "joined (ForWithContext_run (WithNumGoroutines (NewExecutor 8) 2) False 4 telling 0 cancelling)"
    by code_simp
  have cancelling_captures:
    "captures (ForWithContext_run (WithNumGoroutines (NewExecutor 8) 2) False 4 telling 0 cancelling)
       = [False]"
    by code_simp
  let ?e = "WithNumGoroutines (NewExecutor 8) 2"
  let ?R = "ForWithContext_run ?e False 4 telling 0 cancelling"
  note t = ForWithContext_cancellation [OF refl, of ?e False 4 telling 0 cancelling]
  note c = t [THEN conjunct2, THEN conjunct1]
  have r: "ForWithContext ?e False 4 telling 0 cancelling = Returns (?R\<lparr>cancelled := True\<rparr>)"
    by (rule ForWithContext_joined [OF cancelling_joined])
      (simp add: WithNumGoroutines_def wg_counter_def)
  note h = t [THEN conjunct2, THEN conjunct2, THEN conjunct2, THEN conjunct2, THEN conjunct2,
      THEN conjunct2, THEN conjunct2, THEN conjunct1, THEN spec, THEN mp, OF r, THEN conjunct2]
  have l: "log (?R\<lparr>cancelled := True\<rparr>)
      = [Act 0 (Fetched 0), Act 0 (Checked 0 False), Act 0 (Called 0 None),
         Act 1 (Fetched 2), Act 1 (Checked 2 False),
         Act 0 (Fetched 1), Act 0 (Checked 1 False)] @ Act 0 (Called 1 (Some False)) #
        [Act 0 (Captured False True), Act 1 (Called 2 None), Act 1 (Fetched 3),
         Act 1 (Checked 3 True)]"
    using cancelling_log by simp
  from h [THEN spec, THEN spec, THEN spec, THEN spec, THEN spec, THEN mp, OF l]
  have "loopErr (?R\<lparr>cancelled := True\<rparr>) = Some (hd (captures (?R\<lparr>cancelled := True\<rparr>)))"
    by (rule conjunct2)
  then have e: "loopErr ?R = Some False"
    using cancelling_captures by (simp add: captures_def)
  have b: "cancelled_after False
       [Act 0 (Fetched 0), Act 0 (Checked 0 False), Act 0 (Called 0 None),
        Act 1 (Fetched 2), Act 1 (Checked 2 False),
        Act 0 (Fetched 1), Act 0 (Checked 1 False), Act 0 (Called 1 (Some False)),
        Act 0 (Captured False True),
        Act 1 (Called 2 None), Act 1 (Fetched 3)]"
    using c cancelling_log by blast
  note t' = ForWithContext_cancellation [OF refl, of ?e False 4 telling 0
      "[Go 0, Go 0, Go 0, Go 1, Go 1, Go 0, Go 0, Go 0]"]
  note G = t' [THEN conjunct2, THEN conjunct2, THEN conjunct2, THEN conjunct2, THEN conjunct2,
      THEN conjunct2, THEN conjunct1, THEN spec, THEN spec, THEN mp, OF failed(1)]
  have g1: "cancelled (ForWithContext_run ?e False 4 telling 0
       ([Go 0, Go 0, Go 0, Go 1, Go 1, Go 0, Go 0, Go 0] @ [Go 0]))"
    using G by (elim conjE)
  have g2: "loopErr (ForWithContext_run ?e False 4 telling 0
       ([Go 0, Go 0, Go 0, Go 1, Go 1, Go 0, Go 0, Go 0] @ [Go 0])) = Some False"
    by (rule trans [OF G [THEN conjunct2, THEN conjunct1, unfolded failed(3)]]) simp
  have w: "0 \<le> numGoroutines ?e \<and> numGoroutines ?e < 2 ^ 31"
    by (simp add: WithNumGoroutines_def)
  have x: "\<exists>sched' st'. ForWithContext ?e False 4 telling 0
       ([Go 0, Go 0, Go 0, Go 1, Go 1, Go 0, Go 0, Go 0] @ sched') = Returns st'"
    using t' [THEN conjunct2, THEN conjunct2, THEN conjunct2, THEN conjunct2, THEN conjunct2,
      THEN conjunct2, THEN conjunct2, THEN conjunct2, THEN mp, OF w] .
  show ?thesis
    by (intro conjI cancelling_log b r e failed(1) [THEN conjunct2] failed(2) g1 g2 x)
qed

subsection \<open>The contiguous blocks partition the range\<close>

lemma block_start_Suc:
  "0 \<le> g \<Longrightarrow> block_start n (g + 1) N = block_start n g N + block_size n g N"
  by (auto simp add: block_start_def block_size_def algebra_simps min_def)

lemma block_size_nonneg: "0 < n \<Longrightarrow> 0 \<le> N \<Longrightarrow> 0 \<le> block_size n g N"
  by (simp add: block_size_def pos_imp_zdiv_nonneg_iff)

lemma block_start_0: "0 < n \<Longrightarrow> block_start n 0 N = 0"
  by (simp add: block_start_def min_def)

lemma block_start_n:
  assumes "0 < n"
  shows "block_start n n N = N"
proof -
  have "N mod n < n" using assms by (rule pos_mod_bound)
  then have "min n (N mod n) = N mod n" by simp
  then show ?thesis by (simp add: block_start_def)
qed

lemma block_start_mono:
  "0 < n \<Longrightarrow> 0 \<le> N \<Longrightarrow> 0 \<le> g \<Longrightarrow> block_start n g N \<le> block_start n (g + 1) N"
  using block_size_nonneg [of n N g] by (simp add: block_start_Suc)

lemma block_start_le:
  assumes "0 < n" "0 \<le> N"
  shows "k \<le> nat n \<Longrightarrow> block_start n (int k) N \<le> N"
proof (induction "nat n - k" arbitrary: k)
  case 0
  then have "int k = n" using assms(1) by simp
  then show ?case using block_start_n [OF assms(1), of N] by simp
next
  case (Suc d)
  from Suc(2,3) have "d = nat n - Suc k" "Suc k \<le> nat n" by simp_all
  then have "block_start n (int (Suc k)) N \<le> N" by (rule Suc(1))
  moreover have "block_start n (int k) N \<le> block_start n (int k + 1) N"
    using assms by (intro block_start_mono) simp_all
  ultimately show ?case by (simp add: add.commute)
qed

lemma blocks_upto:
  assumes "0 < n" "0 \<le> N"
  shows "sum_list (map (\<lambda>g. mset [block_start n (int g) N..block_start n (int g) N + block_size n (int g) N - 1]) [0..<k])
    = mset [0..block_start n (int k) N - 1]"
proof (induction k)
  case 0
  show ?case using assms(1) by (simp add: block_start_0)
next
  case (Suc k)
  let ?b = "\<lambda>g. block_start n (int g) N"
  have nx: "?b k + block_size n (int k) N = ?b (Suc k)"
    using block_start_Suc [of "int k" n N] by (simp add: add.commute)
  have "0 \<le> ?b k"
  proof (induction k)
    case 0 show ?case using assms(1) by (simp add: block_start_0)
  next
    case (Suc j)
    with block_start_mono [OF assms, of "int j"] show ?case by (simp add: add.commute)
  qed
  moreover have "?b k \<le> ?b (Suc k)"
    using block_start_mono [OF assms, of "int k"] by (simp add: add.commute)
  ultimately have "[0..?b (Suc k) - 1] = [0..?b k - 1] @ [?b k..?b (Suc k) - 1]"
    using upto_split1 [of 0 "?b k" "?b (Suc k) - 1"]
    by (cases "?b k = ?b (Suc k)") auto
  with Suc nx show ?case by simp
qed

subsection \<open>Every index is in one place\<close>

lemma Next_covering:
  assumes "made_by strategy N gn" "0 \<le> c" "IndexGenerator_Next gn c = (i, gn', c')"
  shows "made_by strategy N gn'" and "0 \<le> c'"
    and "(if i < N then {#i#} else {#}) + unfetched gn' + unclaimed strategy N c'
      = unfetched gn + unclaimed strategy N c"
proof -
  show "made_by strategy N gn'"
    using assms by (cases strategy; cases gn) (auto split: if_splits)
  show "0 \<le> c'"
    using assms by (cases strategy; cases gn) (auto split: if_splits)
  show "(if i < N then {#i#} else {#}) + unfetched gn' + unclaimed strategy N c'
      = unfetched gn + unclaimed strategy N c"
  proof (cases strategy)
    case ContiguousBlocksStrategy
    with assms(1) obtain cur lim where gn: "gn = ContiguousBlocksGenerator cur lim N" "lim \<le> N"
      by (cases gn) simp_all
    show ?thesis
    proof (cases "cur < lim")
      case True
      then have "[cur..lim - 1] = cur # [cur + 1..lim - 1]" by (simp add: upto_rec1)
      with True gn assms(3) ContiguousBlocksStrategy show ?thesis by auto
    next
      case False
      with gn assms(3) ContiguousBlocksStrategy show ?thesis by auto
    qed
  next
    case AtomicCounterStrategy
    with assms(1) have gn: "gn = AtomicCounterGenerator N" by (cases gn) simp_all
    show ?thesis
    proof (cases "c < N")
      case True
      then have "[c..N - 1] = c # [c + 1..N - 1]" by (simp add: upto_rec1)
      with True gn assms(3) AtomicCounterStrategy show ?thesis by auto
    next
      case False
      with gn assms(3) AtomicCounterStrategy show ?thesis by auto
    qed
  qed
qed

lemma covering_start:
  assumes "0 < n" "0 \<le> N"
  shows "covering strategy N (start strategy n N d s)"
proof (cases strategy)
  case ContiguousBlocksStrategy
  let ?b = "\<lambda>g. block_start n (int g) N"
  have lim: "?b g + block_size n (int g) N \<le> N" if "g < nat n" for g
  proof -
    have "?b g + block_size n (int g) N = ?b (Suc g)"
      using block_start_Suc [of "int g" n N] by (simp add: add.commute)
    also have "\<dots> \<le> N" using that by (intro block_start_le [OF assms]) simp
    finally show ?thesis .
  qed
  have "sum_list (map (\<lambda>w. claimed w + unfetched (gen w)) (spawn ContiguousBlocksStrategy n N :: 'b worker list))
      = sum_list (map (\<lambda>g. mset [?b g..?b g + block_size n (int g) N - 1]) [0..<nat n])"
    by (simp add: spawn_def comp_def claimed_def)
  also have "\<dots> = mset [0..?b (nat n) - 1]" by (rule blocks_upto [OF assms])
  also have "\<dots> = mset [0..N - 1]" using assms(1) block_start_n [OF assms(1), of N] by simp
  finally show ?thesis
    using ContiguousBlocksStrategy lim
    by (simp add: covering_def start_def calls_def) (simp add: spawn_def list_all_iff)
next
  case AtomicCounterStrategy
  have "sum_list (map (\<lambda>w. claimed w + unfetched (gen w)) (spawn AtomicCounterStrategy n N :: 'b worker list)) = {#}"
    by (simp add: spawn_def comp_def claimed_def)
  with AtomicCounterStrategy show ?thesis
    by (simp add: covering_def start_def calls_def) (simp add: spawn_def list_all_iff)
qed

lemma call_index_one: "map call_index [(i, g, err)] = [i]"
  by (simp add: call_index_def)

lemma acts_covering:
  fixes st st' :: "('s, 'e) invocation"
  shows "acts False N b st st' \<Longrightarrow> covering strategy N st \<Longrightarrow> covering strategy N st'"
proof (induction rule: acts.induct)
  case (fetch g st i gn c)
  let ?f = "\<lambda>w::'e worker. claimed w + unfetched (gen w)"
  define x :: "'e worker"
    where "x = \<lparr>gen = gn, pc = if i < N then if False then AtCheck i else AtBody i else Exited\<rparr>"
  have mb: "made_by strategy N (gen (workers st ! g))" and c0: "0 \<le> counter st"
    using fetch(1,4) by (simp_all add: covering_def list_all_length)
  note nx = Next_covering [OF mb c0 fetch(3)]
  have old: "?f (workers st ! g) = unfetched (gen (workers st ! g))"
    using fetch(2) by (simp add: claimed_def)
  have new: "?f x = (if i < N then {#i#} else {#}) + unfetched gn"
    by (simp add: claimed_def x_def)
  have "sum_list (map ?f ((workers st)[g := x])) + ?f (workers st ! g) + unclaimed strategy N c
      = sum_list (map ?f (workers st)) + ?f x + unclaimed strategy N c"
    using sum_list_map_update [OF fetch(1), of ?f x] by simp
  also have "\<dots> = sum_list (map ?f (workers st)) + unfetched (gen (workers st ! g))
      + unclaimed strategy N (counter st)"
    unfolding new using nx(3) by (simp add: ac_simps)
  finally have h: "sum_list (map ?f ((workers st)[g := x])) + unclaimed strategy N c
      = sum_list (map ?f (workers st)) + unclaimed strategy N (counter st)"
    unfolding old by simp
  have "mset (map call_index (calls st)) + sum_list (map ?f ((workers st)[g := x]))
        + unclaimed strategy N c
      = mset (map call_index (calls st))
        + (sum_list (map ?f ((workers st)[g := x])) + unclaimed strategy N c)"
    by (simp only: add.assoc)
  also have "\<dots> = mset (map call_index (calls st))
        + (sum_list (map ?f (workers st)) + unclaimed strategy N (counter st))"
    by (simp only: h)
  also have "\<dots> = mset [0..N - 1]"
    using fetch(4) by (simp add: covering_def add.assoc)
  finally have "mset (map call_index (calls st)) + sum_list (map ?f ((workers st)[g := x]))
        + unclaimed strategy N c = mset [0..N - 1]" .
  moreover have "list_all (\<lambda>w. made_by strategy N (gen w)) ((workers st)[g := x])"
    using fetch(4) nx(1) by (auto simp add: covering_def x_def intro!: list_all_update)
  ultimately have "covering strategy N
      (st\<lparr>workers := (workers st)[g := x], counter := c, log := log st @ [Act g (Fetched i)]\<rparr>)"
    using nx(2) by (simp add: covering_def log_append)
  then show ?case unfolding x_def .
next
  case (call g st i err s')
  let ?f = "\<lambda>w::'e worker. claimed w + unfetched (gen w)"
  define x :: "'e worker"
    where "x = (workers st ! g)\<lparr>pc := case err of None \<Rightarrow> AtNext | Some e \<Rightarrow> AtOnce e\<rparr>"
  have old: "?f (workers st ! g) = {#i#} + unfetched (gen (workers st ! g))"
    using call(2) by (simp add: claimed_def)
  have new: "?f x = unfetched (gen (workers st ! g))"
    by (simp add: claimed_def x_def split: option.splits)
  have "sum_list (map ?f ((workers st)[g := x])) + ?f (workers st ! g)
      = sum_list (map ?f (workers st)) + ?f x"
    using sum_list_map_update [OF call(1), of ?f x] by simp
  then have h: "sum_list (map ?f (workers st)) = {#i#} + sum_list (map ?f ((workers st)[g := x]))"
    unfolding old new by simp
  have "mset (map call_index (calls st @ [(i, int g, err)]))
        + sum_list (map ?f ((workers st)[g := x])) + unclaimed strategy N (counter st)
      = mset (map call_index (calls st))
        + ({#i#} + sum_list (map ?f ((workers st)[g := x]))) + unclaimed strategy N (counter st)"
    by (simp add: call_index_def)
  also have "\<dots> = mset [0..N - 1]"
    unfolding h [symmetric] using call(4) by (simp add: covering_def)
  finally have "mset (map call_index (calls st @ [(i, int g, err)]))
        + sum_list (map ?f ((workers st)[g := x])) + unclaimed strategy N (counter st)
      = mset [0..N - 1]" .
  moreover have "list_all (\<lambda>w. made_by strategy N (gen w)) ((workers st)[g := x])"
  proof (rule list_all_update)
    show "list_all (\<lambda>w. made_by strategy N (gen w)) (workers st)"
      using call(4) by (simp add: covering_def)
    then show "made_by strategy N (gen x)"
      using call(1) by (simp add: x_def list_all_length)
  qed
  ultimately have "covering strategy N
      (st\<lparr>workers := (workers st)[g := x], store := s', log := log st @ [Act g (Called i err)]\<rparr>)"
    using call(4) by (simp add: covering_def log_append)
  then show ?case unfolding x_def .
next
  case (once g st e)
  let ?f = "\<lambda>w::'e worker. claimed w + unfetched (gen w)"
  let ?x = "(workers st ! g)\<lparr>pc := Exited\<rparr>"
  have "?f (workers st ! g) = ?f ?x" using once(2) by (simp add: claimed_def)
  then have "sum_list (map ?f ((workers st)[g := ?x])) = sum_list (map ?f (workers st))"
    using sum_list_map_update [OF once(1), of ?f ?x] by simp
  moreover have "list_all (\<lambda>w. made_by strategy N (gen w)) ((workers st)[g := ?x])"
  proof (rule list_all_update)
    show "list_all (\<lambda>w. made_by strategy N (gen w)) (workers st)"
      using once(3) by (simp add: covering_def)
    then show "made_by strategy N (gen ?x)"
      using once(1) by (simp add: list_all_length)
  qed
  ultimately show ?case using once(3) by (simp add: covering_def log_append)
qed simp_all

lemma Next_drained:
  assumes "made_by strategy N gn" "IndexGenerator_Next gn c = (i, gn', c')" "\<not> i < N"
  shows "unfetched gn' = {#} \<and> unclaimed strategy N c' = {#}"
  using assms by (cases strategy; cases gn) (auto split: if_splits)

lemma Next_unclaimed:
  assumes "IndexGenerator_Next gn c = (i, gn', c')" "unclaimed strategy N c = {#}"
  shows "unclaimed strategy N c' = {#}"
  using assms by (cases strategy; cases gn) (auto split: if_splits)

lemma drained_act:
  fixes st st' :: "('s, 'e) invocation"
  assumes "drained strategy N st" "g < length (workers st)"
    and "length ws = length (workers st)"
    and "\<And>k. k \<noteq> g \<Longrightarrow> ws ! k = workers st ! k"
    and "workers st' = ws" "log st' = log st @ [Act g a]" "counter st' = c'"
    and "unclaimed strategy N (counter st) = {#} \<Longrightarrow> unclaimed strategy N c' = {#}"
    and "\<And>i. a = Fetched i \<Longrightarrow>
           i < N \<or> (unfetched (gen (ws ! g)) = {#} \<and> unclaimed strategy N c' = {#})"
  shows "drained strategy N st'"
  unfolding drained_def list_all_iff
proof
  fix k assume "k \<in> set [0..<length (workers st')]"
  then have k: "k < length (workers st)" using assms(3,5) by simp
  show "own k (log st') \<noteq> [] \<longrightarrow>
    (case last (own k (log st')) of
       Fetched i \<Rightarrow> i < N \<or>
         (unfetched (gen (workers st' ! k)) = {#} \<and> unclaimed strategy N (counter st') = {#})
     | _ \<Rightarrow> True)"
  proof (cases "k = g")
    case True
    with assms(5,6,7,9) show ?thesis by (auto simp add: own_append split: action.splits)
  next
    case False
    have "own k (log st) \<noteq> [] \<longrightarrow>
      (case last (own k (log st)) of
         Fetched i \<Rightarrow> i < N \<or>
           (unfetched (gen (workers st ! k)) = {#} \<and> unclaimed strategy N (counter st) = {#})
       | _ \<Rightarrow> True)"
      using assms(1) k by (simp add: drained_def list_all_iff)
    with False assms(4) [of k] assms(5,6,7,8) show ?thesis
      by (auto simp add: own_append split: action.splits)
  qed
qed

lemma drained_start: "drained strategy N (start strategy' n N d s)"
  by (simp add: drained_def start_def list_all_iff)

lemma acts_drained:
  fixes st st' :: "('s, 'e) invocation"
  shows "acts False N b st st' \<Longrightarrow> covering strategy N st \<Longrightarrow> drained strategy N st \<Longrightarrow>
    drained strategy N st'"
proof (induction rule: acts.induct)
  case (fetch g st i gn c)
  define x :: "'e worker"
    where "x = \<lparr>gen = gn, pc = if i < N then if False then AtCheck i else AtBody i else Exited\<rparr>"
  have mb: "made_by strategy N (gen (workers st ! g))"
    using fetch(1,4) by (simp add: covering_def list_all_length)
  have "drained strategy N
      (st\<lparr>workers := (workers st)[g := x], counter := c, log := log st @ [Act g (Fetched i)]\<rparr>)"
  proof (rule drained_act [OF fetch(5) fetch(1), where a = "Fetched i" and c' = c
        and ws = "(workers st)[g := x]"])
    show "unclaimed strategy N (counter st) = {#} \<Longrightarrow> unclaimed strategy N c = {#}"
      by (rule Next_unclaimed [OF fetch(3)])
    show "i' < N \<or> (unfetched (gen ((workers st)[g := x] ! g)) = {#} \<and>
        unclaimed strategy N c = {#})" if "Fetched i = Fetched i'" for i'
      using Next_drained [OF mb fetch(3)] fetch(1) that by (auto simp add: x_def)
  qed simp_all
  then show ?case unfolding x_def .
next
  case (call g st i err s')
  show ?case
    by (rule drained_act [OF call(5) call(1), where a = "Called i err" and c' = "counter st"])
      simp_all
next
  case (once g st e)
  show ?case
    by (rule drained_act [OF once(4) once(1), where a = "Captured e (\<not> errOnce st)"
          and c' = "counter st"]) simp_all
qed simp_all

lemma next_point_Exited:
  "next_point False N a = Exited \<Longrightarrow>
   (\<exists>i. a = Fetched i \<and> \<not> i < N) \<or> (\<exists>i. a = Checked i True) \<or> (\<exists>x won. a = Captured x won)"
  by (cases a) (auto simp add: next_point_def split: if_splits option.splits)

lemma follows_no_check:
  assumes "follows False N AtNext h" "h \<noteq> []"
  shows "last h \<noteq> Checked i c"
proof
  assume c: "last h = Checked i c"
  have "follows False N AtNext (butlast h @ [last h])" using assms by simp
  then have "allowed (point_after False N AtNext (butlast h)) (Checked i c)"
    unfolding follows_snoc c by simp
  then have "point_after False N AtNext (butlast h) = AtCheck i" by (rule allowed_Checked)
  from point_after_last [OF this] show False using next_point_no_check by auto
qed

lemma point_Exited_For:
  assumes "follows False N AtNext h" "point_after False N AtNext h = Exited"
  shows "h \<noteq> []"
    and "(\<exists>i. last h = Fetched i \<and> \<not> i < N) \<or> (\<exists>x won. last h = Captured x won)"
proof -
  from point_after_last [OF assms(2)] have ne: "h \<noteq> []"
    and np: "next_point False N (last h) = Exited" by simp_all
  show "h \<noteq> []" by (rule ne)
  from next_point_Exited [OF np] follows_no_check [OF assms(1) ne]
  show "(\<exists>i. last h = Fetched i \<and> \<not> i < N) \<or> (\<exists>x won. last h = Captured x won)"
    by blast
qed

lemma follows_capture:
  assumes "follows w N AtNext h" "Captured x won \<in> set h"
  shows "\<exists>i. Called i (Some x) \<in> set h"
proof -
  from assms(2) obtain as bs where h: "h = as @ Captured x won # bs"
    by (auto simp add: in_set_conv_decomp)
  from follows_mid [OF assms(1) [unfolded h]]
  have "point_after w N AtNext as = AtOnce x"
    using allowed_Captured [of "point_after w N AtNext as" x won] by simp
  from point_AtOnce [OF this] obtain i where "as \<noteq> []" "last as = Called i (Some x)" by blast
  then have "Called i (Some x) \<in> set as" using last_in_set [of as] by auto
  then show ?thesis unfolding h by auto
qed

subsection \<open>Coverage when the call returns\<close>

lemma coherent_snoc:
  "coherent b s (cs @ [c]) s' \<longleftrightarrow>
     (\<exists>s1. coherent b s cs s1 \<and> fst (b (call_index c) (call_grID c) s1) = call_err c \<and>
        s' = snd (b (call_index c) (call_grID c) s1))"
  by (induction cs arbitrary: s) auto

lemma coherent_errors:
  "coherent b s cs s' \<Longrightarrow> (\<And>i g t. fst (b i g t) = None) \<Longrightarrow> errors_of cs = []"
proof (induction cs arbitrary: s)
  case Nil
  show ?case by simp
next
  case (Cons c cs)
  obtain i g err where c: "c = (i, g, err)" by (cases c)
  from Cons.prems have "err = None"
    by (simp add: c call_index_def call_grID_def call_err_def)
  moreover from Cons have "errors_of cs = []" by auto
  ultimately show ?case by (simp add: c)
qed

lemma acts_coherent:
  "acts False N (\<lambda>c. b) st st' \<Longrightarrow> coherent b s0 (calls st) (store st) \<Longrightarrow>
   coherent b s0 (calls st') (store st')"
  by (induction rule: acts.induct)
    (auto simp add: log_append coherent_snoc call_index_def call_grID_def call_err_def)

lemma For_run_coherent: "coherent b s (calls (For_run e N b s sched)) (store (For_run e N b s sched))"
  by (rule For_run_induct [where P = "\<lambda>st. coherent b s (calls st) (store st)"])
    (simp_all add: start_def calls_def acts_coherent [unfolded calls_def])

lemma For_run_in_order:
  "in_order False N (For_run e N b s sched)" "log_ids (For_run e N b s sched)"
proof -
  have "in_order False N (For_run e N b s sched) \<and> log_ids (For_run e N b s sched)"
  proof (rule For_run_induct [where P = "\<lambda>st. in_order False N st \<and> log_ids st"])
    show "in_order False N (start (strategy_of e) (numGoroutines e) N False s) \<and>
      log_ids (start (strategy_of e) (numGoroutines e) N False s :: ('a, 'b) invocation)"
      by (simp add: in_order_start log_ids_start)
  next
    fix st st' :: "('a, 'b) invocation"
    assume "in_order False N st \<and> log_ids st" "acts False N (\<lambda>c. b) st st'"
    then show "in_order False N st' \<and> log_ids st'"
      using acts_in_order [of False N "\<lambda>c. b" st st'] acts_log_ids [of False N "\<lambda>c. b" st st']
      by simp
  qed
  then show "in_order False N (For_run e N b s sched)" "log_ids (For_run e N b s sched)"
    by simp_all
qed

lemma For_run_covering:
  assumes "0 < numGoroutines e" "0 \<le> N"
  shows "covering (strategy_of e) N (For_run e N b s sched)"
    and "drained (strategy_of e) N (For_run e N b s sched)"
proof -
  let ?S = "strategy_of e"
  have "covering ?S N (For_run e N b s sched) \<and> drained ?S N (For_run e N b s sched)"
  proof (rule For_run_induct [where P = "\<lambda>st. covering ?S N st \<and> drained ?S N st"])
    show "covering ?S N (start ?S (numGoroutines e) N False s) \<and>
      drained ?S N (start ?S (numGoroutines e) N False s :: ('a, 'b) invocation)"
      using covering_start [OF assms] by (simp add: drained_start)
  next
    fix st st' :: "('a, 'b) invocation"
    assume "covering ?S N st \<and> drained ?S N st" "acts False N (\<lambda>c. b) st st'"
    then show "covering ?S N st' \<and> drained ?S N st'"
      using acts_covering [of N "\<lambda>c. b" st st' ?S] acts_drained [of N "\<lambda>c. b" st st' ?S]
      by simp
  qed
  then show "covering ?S N (For_run e N b s sched)" "drained ?S N (For_run e N b s sched)"
    by simp_all
qed

lemma calls_of_mem: "(i, g, err) \<in> set (calls_of evs) \<longleftrightarrow> (\<exists>k. g = int k \<and> Act k (Called i err) \<in> set evs)"
  by (induction evs rule: calls_of.induct) auto

lemma sum_list_empty:
  "(\<And>k. k < length ws \<Longrightarrow> f (ws ! k) = ({#} :: 'a multiset)) \<Longrightarrow> sum_list (map f ws) = {#}"
proof (induction ws)
  case Nil
  show ?case by simp
next
  case (Cons w ws)
  have "f w = {#}" using Cons.prems [of 0] by simp
  moreover have "sum_list (map f ws) = {#}"
    using Cons.prems [of "Suc k" for k] by (intro Cons.IH) simp
  ultimately show ?case by simp
qed

text \<open>A goroutine that has returned without an error of its own has drained its generator.\<close>

lemma unfailed_drained:
  assumes "in_order False N st" "drained strategy N st"
    and "g < length (workers st)" "pc (workers st ! g) = Exited"
    and "\<And>i x. Called i (Some x) \<notin> set (own g (log st))"
  shows "unfetched (gen (workers st ! g)) = {#}" and "unclaimed strategy N (counter st) = {#}"
proof -
  let ?h = "own g (log st)"
  have f: "follows False N AtNext ?h" and p: "point_after False N AtNext ?h = Exited"
    using assms(1,3,4) by (simp_all add: in_order_def list_all_iff)
  note pe = point_Exited_For [OF f p]
  have "last ?h \<noteq> Captured x won" for x won
  proof
    assume "last ?h = Captured x won"
    then have "Captured x won \<in> set ?h" using pe(1) last_in_set [of ?h] by auto
    from follows_capture [OF f this] assms(5) show False by blast
  qed
  with pe(2) obtain i where l: "last ?h = Fetched i" "\<not> i < N" by blast
  have "?h \<noteq> [] \<longrightarrow>
      (case last ?h of
         Fetched i \<Rightarrow> i < N \<or>
           (unfetched (gen (workers st ! g)) = {#} \<and> unclaimed strategy N (counter st) = {#})
       | _ \<Rightarrow> True)"
    using assms(2,3) by (simp add: drained_def list_all_iff)
  with pe(1) l show "unfetched (gen (workers st ! g)) = {#}"
    and "unclaimed strategy N (counter st) = {#}" by simp_all
qed

lemma For_covers:
  assumes "For e N body s sched = Returns st" "0 < numGoroutines e" "0 \<le> N"
    and "errors_of (calls st) = []"
  shows "mset (map call_index (calls st)) = mset [0..N - 1]"
proof -
  note st = For_Returns(1) [OF assms(1)] and j = For_Returns(2) [OF assms(1)]
  let ?S = "strategy_of e"
  have io: "in_order False N st" unfolding st by (rule For_run_in_order)
  have cov: "covering ?S N st" unfolding st by (rule For_run_covering [OF assms(2,3)])
  have dr: "drained ?S N st" unfolding st by (rule For_run_covering [OF assms(2,3)])
  have "length (workers st) = nat (numGoroutines e)" unfolding st by (rule For_run_length)
  then have len: "0 < length (workers st)" using assms(2) by simp
  have ex: "pc (workers st ! g) = Exited" if "g < length (workers st)" for g
    using j that by (simp add: joined_def list_all_length)
  have none: "Called i (Some x) \<notin> set (own g (log st))" for g i x
  proof
    assume "Called i (Some x) \<in> set (own g (log st))"
    then have "(i, int g, Some x) \<in> set (calls st)"
      by (auto simp add: own_mem calls_def calls_of_mem)
    then have "x \<in> set (errors_of (calls st))" by (auto simp add: errors_of_set)
    with assms(4) show False by simp
  qed
  have "claimed (workers st ! g) + unfetched (gen (workers st ! g)) = {#}"
    if "g < length (workers st)" for g
    using unfailed_drained(1) [OF io dr that ex [OF that] none] ex [OF that]
    by (simp add: claimed_def)
  then have "sum_list (map (\<lambda>w. claimed w + unfetched (gen w)) (workers st)) = {#}"
    by (rule sum_list_empty)
  moreover have "unclaimed ?S N (counter st) = {#}"
    using unfailed_drained(2) [OF io dr len ex [OF len] none] .
  ultimately show ?thesis using cov by (simp add: covering_def)
qed

lemma joined_loopErr:
  assumes "joined st" "first_wins st"
  shows "loopErr st = None \<longleftrightarrow> errors_of (calls st) = []"
proof -
  have m: "mset (captures st) = mset (errors_of (calls st))"
    using assms joined_uncaptured [OF assms(1)] by (simp add: first_wins_def)
  have "loopErr st = None \<longleftrightarrow> captures st = []"
    using assms(2) by (auto simp add: first_wins_def split: list.splits)
  also have "\<dots> \<longleftrightarrow> mset (captures st) = {#}" by simp
  also have "\<dots> \<longleftrightarrow> errors_of (calls st) = []" unfolding m by simp
  finally show ?thesis .
qed

lemma calls_grID:
  assumes "log_ids st" "c \<in> set (calls st)"
  shows "0 \<le> call_grID c \<and> call_grID c < int (length (workers st))"
proof -
  obtain i g err where c: "c = (i, g, err)" by (cases c)
  with assms(2) obtain k where k: "g = int k" "Act k (Called i err) \<in> set (log st)"
    by (auto simp add: calls_def calls_of_mem)
  with assms(1) have "k < length (workers st)"
    by (auto simp add: log_ids_def list_all_iff)
  with k c show ?thesis by (simp add: call_grID_def)
qed



subsection \<open>An empty range is never entered\<close>

lemma block_size_nonpos:
  assumes "0 < n" "N \<le> 0" "0 \<le> g"
  shows "block_size n g N \<le> 0"
proof (cases "g < N mod n")
  case True
  then have "N mod n \<noteq> 0" using assms(3) by simp
  then have "N \<noteq> 0" by auto
  then have "N < 0" using assms(2) by simp
  then have "N div n < 0" using assms(1) by (rule div_neg_pos_less0)
  with True show ?thesis by (simp add: block_size_def)
next
  case False
  have "N div n \<le> 0" using assms(1,2) by (simp add: div_nonpos_pos_le0)
  with False show ?thesis by (simp add: block_size_def)
qed

lemma idle_start:
  assumes "N \<le> 0"
  shows "idle N (start strategy n N d s)"
proof (cases "0 < n")
  case False
  then show ?thesis by (simp add: idle_def start_def spawn_def calls_def)
next
  case True
  have "empty_gen N (Strategy_IndexGenerator strategy n (int g) N)" for g
    using block_size_nonpos [OF True assms, of "int g"] by (cases strategy) simp_all
  then show ?thesis
    by (simp add: idle_def start_def spawn_def calls_def list_all_iff)
qed

lemma Next_empty:
  assumes "empty_gen N gn" "0 \<le> c" "N \<le> 0" "IndexGenerator_Next gn c = (i, gn', c')"
  shows "\<not> i < N" and "empty_gen N gn'" and "0 \<le> c'"
  using assms by (cases gn; auto split: if_splits)+

lemma acts_idle:
  assumes "N \<le> 0"
  shows "acts False N b st st' \<Longrightarrow> idle N st \<Longrightarrow> idle N st'"
proof (induction rule: acts.induct)
  case (fetch g st i gn c)
  have "empty_gen N (gen (workers st ! g))" "0 \<le> counter st"
    using fetch(1,4) by (simp_all add: idle_def list_all_length)
  note nx = Next_empty [OF this assms fetch(3)]
  have "list_all (\<lambda>w. empty_gen N (gen w) \<and>
             (case pc w of AtNext \<Rightarrow> True | Exited \<Rightarrow> True | _ \<Rightarrow> False))
      ((workers st)[g := \<lparr>gen = gn, pc = Exited\<rparr>])"
    using fetch(4) nx(2) by (intro list_all_update) (simp_all add: idle_def)
  with fetch(4) nx(1,3) show ?case by (simp add: idle_def log_append)
next
  case (call g st i err s')
  then show ?case by (auto simp add: idle_def list_all_length)
next
  case (once g st e)
  then show ?case by (auto simp add: idle_def list_all_length)
qed simp_all

lemma For_run_idle: "N \<le> 0 \<Longrightarrow> idle N (For_run e N b s sched)"
  by (rule For_run_induct [where P = "idle N"]) (simp_all add: idle_start acts_idle)



subsection \<open>Serial and parallel execution of a body that fills an array\<close>

lemma coherent_replay: "coherent b s cs s' \<Longrightarrow> s' = replay b cs s"
  by (induction cs arbitrary: s) (auto simp add: replay_def)

lemma replay_write:
  "replay (write_body f) cs res
     = fold (\<lambda>i t. snd (write_body f i 0 t :: 'e option \<times> 'a list option)) (map call_index cs) res"
  for cs :: "'e call list"
  by (induction cs arbitrary: res) (simp_all add: replay_def write_body_def)

lemma write_commute:
  fixes f :: "int \<Rightarrow> 'a"
  defines "W \<equiv> \<lambda>i t. snd (write_body f i 0 t :: 'e option \<times> 'a list option)"
  shows "W i \<circ> W j = W j \<circ> W i"
proof
  fix res :: "'a list option"
  show "(W i \<circ> W j) res = (W j \<circ> W i) res"
  proof (cases res)
    case None
    then show ?thesis by (simp add: W_def write_body_def)
  next
    case (Some xs)
    show ?thesis
    proof (cases "i = j")
      case True
      then show ?thesis by simp
    next
      case False
      then have "0 \<le> i \<Longrightarrow> 0 \<le> j \<Longrightarrow> nat i \<noteq> nat j" by simp
      then show ?thesis using Some by (auto simp add: W_def write_body_def list_update_swap)
    qed
  qed
qed

lemma For_indices:
  assumes "For e N body s sched = Returns st" "1 \<le> numGoroutines e" "errors_of (calls st) = []"
  shows "mset (map call_index (calls st)) = mset [0..N - 1]"
proof (cases "0 \<le> N")
  case True
  from assms(1) _ True assms(3) show ?thesis by (rule For_covers) (use assms(2) in simp)
next
  case False
  then have "N \<le> 0" by simp
  from For_run_idle [OF this, of e body s sched] have "calls st = []"
    unfolding For_Returns(1) [OF assms(1)] by (simp add: idle_def)
  with False show ?thesis by simp
qed

lemma SerialExecutor_unfailing:
  assumes "\<And>i g t. fst (body i g t) = None"
  shows "\<exists>tr. SerialExecutor N body s = (None, tr, replay body tr s) \<and>
    map call_index tr = [0..N - 1]"
proof -
  obtain err tr s' where r: "SerialExecutor N body s = (err, tr, s')"
    by (cases "SerialExecutor N body s")
  from SerialExecutor_loop_trace [OF r [unfolded SerialExecutor_def]]
  have ix: "map call_index tr = [0..int (length tr) - 1]"
    and co: "coherent body s tr s'"
    and er: "case err of
          None \<Rightarrow> 0 + int (length tr) = max 0 N \<and> (\<forall>c\<in>set tr. call_err c = None)
        | Some e \<Rightarrow> tr \<noteq> [] \<and> call_err (last tr) = Some e \<and> 0 + int (length tr) \<le> N"
    by auto
  have "errors_of tr = []" using co assms by (rule coherent_errors)
  have "err = None"
  proof (cases err)
    case (Some x)
    with er have "tr \<noteq> []" "call_err (last tr) = Some x" by simp_all
    then obtain i g where "(i, g, Some x) \<in> set tr"
      using last_in_set [of tr] by (cases "last tr") (auto simp add: call_err_def)
    then have "x \<in> set (errors_of tr)" by (auto simp add: errors_of_set)
    with \<open>errors_of tr = []\<close> show ?thesis by simp
  qed simp
  with er have "int (length tr) = max 0 N" by simp
  then have "[0..int (length tr) - 1] = [0..N - 1]" by (cases "0 \<le> N") (simp_all add: max_def)
  with ix r \<open>err = None\<close> coherent_replay [OF co] show ?thesis by simp
qed


lemma writes_upto:
  fixes f :: "int \<Rightarrow> 'a"
  shows "0 \<le> N \<Longrightarrow> N \<le> int (length xs) \<Longrightarrow>
    fold (\<lambda>i t. snd (write_body f i 0 t :: 'e option \<times> 'a list option)) [0..N - 1] (Some xs)
      = Some (map (\<lambda>k. if int k < N then f (int k) else xs ! k) [0..<length xs])"
proof (induction N rule: int_ge_induct)
  case base
  show ?case by (simp add: map_nth)
next
  case (step M)
  let ?W = "\<lambda>i t. snd (write_body f i 0 t :: 'e option \<times> 'a list option)"
  let ?g = "\<lambda>M k. if int k < M then f (int k) else xs ! k"
  have "[0..M + 1 - 1] = [0..M - 1] @ [M]" using step(1) upto_rec2 [of 0 M] by simp
  then have "fold ?W [0..M + 1 - 1] (Some xs) = ?W M (fold ?W [0..M - 1] (Some xs))" by simp
  also have "\<dots> = ?W M (Some (map (?g M) [0..<length xs]))"
  proof -
    have "fold ?W [0..M - 1] (Some xs) = Some (map (?g M) [0..<length xs])"
      using step(3) by (intro step(2)) simp
    then show ?thesis by (simp only:)
  qed
  also have "\<dots> = Some ((map (?g M) [0..<length xs])[nat M := f M])"
    using step(1,3) by (simp add: write_body_def)
  also have "(map (?g M) [0..<length xs])[nat M := f M] = map (?g (M + 1)) [0..<length xs]"
    using step(1,3) by (intro nth_equalityI) (auto simp add: nth_list_update)
  finally show ?case .
qed

text \<open>
  C6: for the body \<^verbatim>\<open>result[i] = f(i)\<close>, with at least one goroutine, whatever the schedule
  and the strategy: when \<^verbatim>\<open>For\<close> returns, the result array is the one the serial executor
  leaves, and both return nil. On an array of at least \<open>N\<close> cells that is \<open>f i\<close> in every
  cell \<open>i\<close> below \<open>N\<close> and the old content elsewhere. The call returns under every
  schedule that is continued long enough.
\<close>

theorem For_agrees_with_SerialExecutor:
  fixes f :: "int \<Rightarrow> 'a" and st :: "('a list option, 'e) invocation"
  assumes "1 \<le> numGoroutines e" "For e N (write_body f) res sched = Returns st"
  shows "SerialExecutor N (write_body f) res = (loopErr st, fst (snd (SerialExecutor N (write_body f) res)), store st) \<and>
    loopErr st = None \<and>
    (\<forall>xs. res = Some xs \<and> 0 \<le> N \<and> N \<le> int (length xs) \<longrightarrow>
       store st = Some (map (\<lambda>k. if int k < N then f (int k) else xs ! k) [0..<length xs])) \<and>
    (\<forall>sched0. \<exists>sched' st'. For e N (write_body f :: ('a list option, 'e) loopBody) res (sched0 @ sched')
       = Returns st')"
proof -
  let ?b = "write_body f :: ('a list option, 'e) loopBody"
  let ?W = "\<lambda>i t. snd (write_body f i 0 t :: 'e option \<times> 'a list option)"
  note st = For_Returns(1) [OF assms(2)] and j = For_Returns(2) [OF assms(2)]
  have nf: "fst (?b i g t) = None" for i g t by (simp add: write_body_def)
  have co: "coherent ?b res (calls st) (store st)" unfolding st by (rule For_run_coherent)
  then have ne: "errors_of (calls st) = []" by (rule coherent_errors) (rule nf)
  have "first_wins st" unfolding st by (rule For_run_first_wins)
  with j ne have l: "loopErr st = None" by (simp add: joined_loopErr)
  have ms: "mset (map call_index (calls st)) = mset [0..N - 1]"
    using assms(2,1) ne by (rule For_indices)
  have "store st = fold ?W (map call_index (calls st)) res"
    using coherent_replay [OF co] by (simp add: replay_write)
  also have "\<dots> = fold ?W [0..N - 1] res"
  proof -
    have "?W x \<circ> ?W y = ?W y \<circ> ?W x" for x y
      by (rule write_commute)
    then have "fold ?W (map call_index (calls st)) = fold ?W [0..N - 1]"
      using ms by (intro fold_multiset_equiv)
    then show ?thesis by simp
  qed
  finally have par: "store st = fold ?W [0..N - 1] res" .
  from SerialExecutor_unfailing [of ?b N res] nf
  obtain tr where ser: "SerialExecutor N ?b res = (None, tr, replay ?b tr res)"
    "map call_index tr = [0..N - 1]" by blast
  have "replay ?b tr res = fold ?W [0..N - 1] res" by (simp add: replay_write ser(2))
  with par ser(1) l have "SerialExecutor N ?b res
      = (loopErr st, fst (snd (SerialExecutor N ?b res)), store st)" by simp
  moreover have "store st = Some (map (\<lambda>k. if int k < N then f (int k) else xs ! k) [0..<length xs])"
    if "res = Some xs \<and> 0 \<le> N \<and> N \<le> int (length xs)" for xs
    using that par writes_upto [of N xs f] by simp
  moreover have "\<exists>sched' st'. For e N ?b res (sched0 @ sched') = Returns st'" for sched0
    using For_Returns(3) [OF assms(2)] by (rule For_returns)
  ultimately show ?thesis using l by blast
qed

theorem For_agrees_with_SerialExecutor_witness:
  "1 \<le> numGoroutines (WithNumGoroutines (NewExecutor 8) 2) \<and>
   For (WithNumGoroutines (NewExecutor 8) 2) 3
     (write_body (\<lambda>i. 7 * i) :: (int list option, unit) loopBody) (Some [0, 0, 0, 5]) alternating
     = Returns (For_run (WithNumGoroutines (NewExecutor 8) 2) 3
         (write_body (\<lambda>i. 7 * i)) (Some [0, 0, 0, 5]) alternating) \<and>
   store (For_run (WithNumGoroutines (NewExecutor 8) 2) 3
     (write_body (\<lambda>i. 7 * i) :: (int list option, unit) loopBody) (Some [0, 0, 0, 5]) alternating)
     = Some [0, 7, 14, 5]"
proof -
  have alternating_write_joined:
    "joined (For_run (WithNumGoroutines (NewExecutor 8) 2) 3
       (write_body (\<lambda>i. 7 * i) :: (int list option, unit) loopBody) (Some [0, 0, 0, 5]) alternating)"
    by code_simp
  have n: "1 \<le> numGoroutines (WithNumGoroutines (NewExecutor 8) 2)"
    by (simp add: WithNumGoroutines_def)
  have r: "For (WithNumGoroutines (NewExecutor 8) 2) 3
     (write_body (\<lambda>i. 7 * i) :: (int list option, unit) loopBody) (Some [0, 0, 0, 5]) alternating
     = Returns (For_run (WithNumGoroutines (NewExecutor 8) 2) 3
         (write_body (\<lambda>i. 7 * i)) (Some [0, 0, 0, 5]) alternating)"
    by (rule For_joined [OF alternating_write_joined]) (simp add: WithNumGoroutines_def wg_counter_def)
  have "[0..<length [0, 0, 0, 5::int]] = [0, 1, 2, 3]" by (simp add: upt_rec)
  with For_agrees_with_SerialExecutor [OF n r] r n show ?thesis by simp
qed

subsection \<open>An error stops its own goroutine only\<close>

lemma in_block_start:
  assumes "0 < n" "0 \<le> N"
  shows "in_block n N (start strategy n N d s)"
proof -
  have "block_ok n N g \<lparr>gen = Strategy_IndexGenerator strategy n (int g) N, pc = AtNext\<rparr> []"
    if "g < nat n" for g
  proof -
    have "block_start n (int g) N + block_size n (int g) N = block_start n (int (Suc g)) N"
      using block_start_Suc [of "int g" n N] by (simp add: add.commute)
    also have "\<dots> \<le> N" using that by (intro block_start_le [OF assms]) simp
    finally show ?thesis
      using block_size_nonneg [OF assms, of "int g"]
      by (cases strategy) (simp_all add: block_ok_def holding_def)
  qed
  then show ?thesis
    by (auto simp add: in_block_def start_def list_all_iff length_spawn nth_spawn)
qed

lemma in_block_act:
  fixes st st' :: "('s, 'e) invocation"
  assumes "in_block n N st" "g < length (workers st)"
    and "length ws = length (workers st)"
    and "\<And>k. k \<noteq> g \<Longrightarrow> ws ! k = workers st ! k"
    and "workers st' = ws" "log st' = log st @ [Act g a]"
    and "block_ok n N g (workers st ! g) (own g (log st)) \<Longrightarrow>
         block_ok n N g (ws ! g) (own g (log st) @ [a])"
  shows "in_block n N st'"
  unfolding in_block_def list_all_iff
proof
  fix k assume "k \<in> set [0..<length (workers st')]"
  then have k: "k < length (workers st)" using assms(3,5) by simp
  then have old: "block_ok n N k (workers st ! k) (own k (log st))"
    using assms(1) by (simp add: in_block_def list_all_iff)
  show "block_ok n N k (workers st' ! k) (own k (log st'))"
  proof (cases "k = g")
    case True
    with old assms(5,6,7) show ?thesis by (simp add: own_append)
  next
    case False
    with old assms(4) [of k] assms(5,6) show ?thesis by (simp add: own_append)
  qed
qed

lemma acts_in_block:
  fixes st st' :: "('s, 'e) invocation"
  shows "acts False N b st st' \<Longrightarrow> in_block n N st \<Longrightarrow> in_block n N st'"
proof (induction rule: acts.induct)
  case (fetch g st i gn c)
  define x :: "'e worker"
    where "x = \<lparr>gen = gn, pc = if i < N then if False then AtCheck i else AtBody i else Exited\<rparr>"
  have "in_block n N
      (st\<lparr>workers := (workers st)[g := x], counter := c, log := log st @ [Act g (Fetched i)]\<rparr>)"
  proof (rule in_block_act [OF fetch(4) fetch(1), where a = "Fetched i"
        and ws = "(workers st)[g := x]"])
    assume ok: "block_ok n N g (workers st ! g) (own g (log st))"
    show "block_ok n N g ((workers st)[g := x] ! g) (own g (log st) @ [Fetched i])"
    proof (cases "gen (workers st ! g)")
      case (AtomicCounterGenerator N')
      with fetch(3) have "gn = AtomicCounterGenerator N'" by auto
      with fetch(1) show ?thesis by (simp add: block_ok_def x_def)
    next
      case (ContiguousBlocksGenerator cur lim N')
      let ?b = "block_start n (int g) N"
      from ok ContiguousBlocksGenerator fetch(2)
      have inv: "N' = N" "lim = ?b + block_size n (int g) N" "lim \<le> N" "?b \<le> cur" "cur \<le> lim"
        "invoked_of (own g (log st)) = [?b..cur - 1]"
        by (simp_all add: block_ok_def holding_def)
      show ?thesis
      proof (cases "cur < lim")
        case True
        with fetch(3) ContiguousBlocksGenerator
        have nx: "i = cur" "gn = ContiguousBlocksGenerator (cur + 1) lim N'" by auto
        have "[?b..cur - 1] @ [cur] = [?b..cur + 1 - 1]"
          using inv(4) upto_rec2 [of ?b cur] by simp
        with True inv nx fetch(1) show ?thesis
          by (simp add: block_ok_def x_def holding_def invoked_of_append)
      next
        case False
        with fetch(3) ContiguousBlocksGenerator
        have nx: "i = N'" "gn = ContiguousBlocksGenerator cur lim N'" by auto
        with inv fetch(1) show ?thesis
          by (simp add: block_ok_def x_def holding_def invoked_of_append)
      qed
    qed
  qed simp_all
  then show ?case unfolding x_def .
next
  case (call g st i err s')
  show ?case
  proof (rule in_block_act [OF call(4) call(1), where a = "Called i err"])
    assume "block_ok n N g (workers st ! g) (own g (log st))"
    with call(1,2) show "block_ok n N g
        ((workers st)[g := (workers st ! g)\<lparr>pc := case err of None \<Rightarrow> AtNext | Some e \<Rightarrow> AtOnce e\<rparr>] ! g)
        (own g (log st) @ [Called i err])"
      by (auto simp add: block_ok_def holding_def invoked_of_append
          split: IndexGenerator.splits option.splits)
  qed simp_all
next
  case (once g st e)
  show ?case
  proof (rule in_block_act [OF once(3) once(1), where a = "Captured e (\<not> errOnce st)"])
    assume "block_ok n N g (workers st ! g) (own g (log st))"
    with once(1,2) show "block_ok n N g ((workers st)[g := (workers st ! g)\<lparr>pc := Exited\<rparr>] ! g)
        (own g (log st) @ [Captured e (\<not> errOnce st)])"
      by (auto simp add: block_ok_def holding_def invoked_of_append split: IndexGenerator.splits)
  qed simp_all
qed simp_all

lemma For_run_in_block:
  assumes "0 < numGoroutines e" "0 \<le> N"
  shows "in_block (numGoroutines e) N (For_run e N b s sched)"
  by (rule For_run_induct [where P = "in_block (numGoroutines e) N"])
    (simp_all add: in_block_start [OF assms] acts_in_block)

lemma error_then_capture:
  assumes "in_order False N st" "log_ids st" "joined st"
    and "log st = xs @ Act g (Called i (Some x)) # ys"
  shows "\<exists>won. own g ys = [Captured x won]"
proof -
  have g: "g < length (workers st)"
    using assms(2,4) by (simp add: log_ids_def)
  let ?h = "own g xs @ Called i (Some x) # own g ys"
  have h: "own g (log st) = ?h" by (rule log_own [OF assms(4)])
  have f: "follows False N AtNext ?h"
    using follows_all [OF assms(1,2), of g] h by simp
  from follows_mid [OF f] have fy: "follows False N (AtOnce x) (own g ys)"
    by (simp add: next_point_def)
  have "pc (workers st ! g) = Exited"
    using assms(3) g by (simp add: joined_def list_all_length)
  moreover have "pc (workers st ! g) = point_after False N AtNext (own g (log st))"
    using assms(1) g by (simp add: in_order_def list_all_iff)
  ultimately have "point_after False N AtNext ?h = Exited" unfolding h by simp
  then have "own g ys \<noteq> []" by (auto simp add: point_after_def next_point_def)
  then obtain a rest where y: "own g ys = a # rest" by (cases "own g ys") auto
  with fy have "allowed (AtOnce x) a" "follows False N (next_point False N a) rest" by simp_all
  from allowed_AtOnce [OF this(1)] obtain won where a: "a = Captured x won" by blast
  with \<open>follows False N (next_point False N a) rest\<close> have "rest = []"
    using follows_Exited [of False N rest] by (simp add: next_point_def)
  with y a show ?thesis by simp
qed

text \<open>
  C4: with at least one goroutine and \<open>N \<ge> 0\<close>, when \<^verbatim>\<open>For\<close> returns, under every
  schedule: a goroutine whose invocation of the body returned an error did one thing
  more, the call of \<^verbatim>\<open>errOnce.Do\<close>; it fetched and invoked nothing after it. Under the
  contiguous strategy every goroutine has invoked its block in ascending order from the
  start, and a goroutine that saw no error of its own has invoked the whole block,
  whatever happened in the others. Under the atomic-counter strategy, if one goroutine
  saw no error of its own then every index of \<open>[0, N)\<close> was invoked exactly once. The
  invocations recorded are applications of the body to the caller's state, in the order
  of the record. And with a count that the counter of the wait group holds, one below
  \<open>2\<^sup>3\<^sup>1\<close>, the call does return, errors or not: every schedule can be continued to the
  return.
\<close>

theorem For_error_stops_only_its_goroutine:
  assumes "1 \<le> numGoroutines e" "0 \<le> N"
  shows "(\<forall>sched st. For e N body s sched = Returns st \<longrightarrow>
    (\<forall>xs g i x ys. log st = xs @ Act g (Called i (Some x)) # ys \<longrightarrow>
      (\<exists>won. own g ys = [Captured x won])) \<and>
    (strategy_of e = ContiguousBlocksStrategy \<longrightarrow>
      (\<forall>g<nat (numGoroutines e). \<exists>cur.
         block_start (numGoroutines e) (int g) N \<le> cur \<and>
         cur \<le> block_start (numGoroutines e) (int g) N + block_size (numGoroutines e) (int g) N \<and>
         invoked_of (own g (log st)) = [block_start (numGoroutines e) (int g) N..cur - 1] \<and>
         ((\<forall>i x. Called i (Some x) \<notin> set (own g (log st))) \<longrightarrow>
            cur = block_start (numGoroutines e) (int g) N + block_size (numGoroutines e) (int g) N))) \<and>
    (strategy_of e = AtomicCounterStrategy \<longrightarrow>
      (\<exists>g<nat (numGoroutines e). \<forall>i x. Called i (Some x) \<notin> set (own g (log st))) \<longrightarrow>
      mset (map call_index (calls st)) = mset [0..N - 1]) \<and>
    coherent body s (calls st) (store st)) \<and>
   (numGoroutines e < 2 ^ 31 \<longrightarrow>
      (\<forall>sched. \<exists>sched' st. For e N body s (sched @ sched') = Returns st))"
proof -
  have T: "\<exists>sched' st. For e N body s (sched @ sched') = Returns st"
    if "numGoroutines e < 2 ^ 31" for sched
  proof (rule For_returns)
    show "wg_counter (numGoroutines e) = max 0 (numGoroutines e)"
      using assms(1) that by (intro wg_counter_max) simp_all
  qed
  have M: "(\<forall>xs g i x ys. log st = xs @ Act g (Called i (Some x)) # ys \<longrightarrow>
      (\<exists>won. own g ys = [Captured x won])) \<and>
    (strategy_of e = ContiguousBlocksStrategy \<longrightarrow>
      (\<forall>g<nat (numGoroutines e). \<exists>cur.
         block_start (numGoroutines e) (int g) N \<le> cur \<and>
         cur \<le> block_start (numGoroutines e) (int g) N + block_size (numGoroutines e) (int g) N \<and>
         invoked_of (own g (log st)) = [block_start (numGoroutines e) (int g) N..cur - 1] \<and>
         ((\<forall>i x. Called i (Some x) \<notin> set (own g (log st))) \<longrightarrow>
            cur = block_start (numGoroutines e) (int g) N + block_size (numGoroutines e) (int g) N))) \<and>
    (strategy_of e = AtomicCounterStrategy \<longrightarrow>
      (\<exists>g<nat (numGoroutines e). \<forall>i x. Called i (Some x) \<notin> set (own g (log st))) \<longrightarrow>
      mset (map call_index (calls st)) = mset [0..N - 1]) \<and>
    coherent body s (calls st) (store st)"
    if r: "For e N body s sched = Returns st" for sched st
  proof -
    let ?n = "numGoroutines e" and ?S = "strategy_of e"
    have n: "0 < ?n" using assms(1) by simp
    note st = For_Returns(1) [OF r] and j = For_Returns(2) [OF r]
    have io: "in_order False N st" and ids: "log_ids st"
      unfolding st by (rule For_run_in_order)+
    have cov: "covering ?S N st" and dr: "drained ?S N st"
      unfolding st by (rule For_run_covering [OF n assms(2)])+
    have ib: "in_block ?n N st" unfolding st by (rule For_run_in_block [OF n assms(2)])
    have co: "coherent body s (calls st) (store st)" unfolding st by (rule For_run_coherent)
    have len: "length (workers st) = nat ?n" unfolding st by (rule For_run_length)
    have ex: "pc (workers st ! g) = Exited" if "g < nat ?n" for g
      using j that len by (simp add: joined_def list_all_length)
    have A: "\<exists>won. own g ys = [Captured x won]"
      if "log st = xs @ Act g (Called i (Some x)) # ys" for xs g i x ys
      using io ids j that by (rule error_then_capture)
    have B: "\<exists>cur. block_start ?n (int g) N \<le> cur \<and>
           cur \<le> block_start ?n (int g) N + block_size ?n (int g) N \<and>
           invoked_of (own g (log st)) = [block_start ?n (int g) N..cur - 1] \<and>
           ((\<forall>i x. Called i (Some x) \<notin> set (own g (log st))) \<longrightarrow>
              cur = block_start ?n (int g) N + block_size ?n (int g) N)"
      if c: "?S = ContiguousBlocksStrategy" and g: "g < nat ?n" for g
    proof -
      have gl: "g < length (workers st)" using g len by simp
      have "made_by ContiguousBlocksStrategy N (gen (workers st ! g))"
        using cov gl c by (simp add: covering_def list_all_length)
      then obtain cur lim N' where gn: "gen (workers st ! g) = ContiguousBlocksGenerator cur lim N'"
        by (cases "gen (workers st ! g)") simp_all
      have "block_ok ?n N g (workers st ! g) (own g (log st))"
        using ib gl by (simp add: in_block_def list_all_iff)
      with gn ex [OF g]
      have inv: "lim = block_start ?n (int g) N + block_size ?n (int g) N"
        "block_start ?n (int g) N \<le> cur" "cur \<le> lim"
        "invoked_of (own g (log st)) = [block_start ?n (int g) N..cur - 1]"
        by (simp_all add: block_ok_def holding_def)
      have "cur = lim" if "\<forall>i x. Called i (Some x) \<notin> set (own g (log st))"
      proof -
        have "unfetched (gen (workers st ! g)) = {#}"
          using io dr gl ex [OF g] that by (intro unfailed_drained(1) [where strategy = ?S]) auto
        with gn inv(3) show ?thesis by simp
      qed
      with inv show ?thesis by blast
    qed
    have C: "mset (map call_index (calls st)) = mset [0..N - 1]"
      if a: "?S = AtomicCounterStrategy"
        and g: "\<exists>g<nat ?n. \<forall>i x. Called i (Some x) \<notin> set (own g (log st))"
    proof -
      from g obtain g where g: "g < nat ?n" "\<forall>i x. Called i (Some x) \<notin> set (own g (log st))"
        by blast
      then have gl: "g < length (workers st)" using len by simp
      have "unclaimed ?S N (counter st) = {#}"
        using io dr gl ex [OF g(1)] g(2) by (intro unfailed_drained(2) [where g = g]) auto
      moreover have "claimed (workers st ! k) + unfetched (gen (workers st ! k)) = {#}"
        if "k < length (workers st)" for k
      proof -
        have "made_by AtomicCounterStrategy N (gen (workers st ! k))"
          using cov that a by (simp add: covering_def list_all_length)
        then have "unfetched (gen (workers st ! k)) = {#}"
          by (cases "gen (workers st ! k)") simp_all
        moreover have "claimed (workers st ! k) = {#}"
          using ex [of k] that len by (simp add: claimed_def)
        ultimately show ?thesis by simp
      qed
      then have "sum_list (map (\<lambda>w. claimed w + unfetched (gen w)) (workers st)) = {#}"
        by (rule sum_list_empty)
      ultimately show ?thesis using cov by (simp add: covering_def)
    qed
    from A B C co show ?thesis by blast
  qed
  from M T show ?thesis by blast
qed

theorem For_error_stops_only_its_goroutine_witness:
  "For (WithNumGoroutines (NewExecutor 8) 2) 4 (failing_on [0]) 0 one_fails
     = Returns (For_run (WithNumGoroutines (NewExecutor 8) 2) 4 (failing_on [0]) 0 one_fails) \<and>
   1 \<le> numGoroutines (WithNumGoroutines (NewExecutor 8) 2) \<and> (0::int) \<le> 4 \<and>
   numGoroutines (WithNumGoroutines (NewExecutor 8) 2) < 2 ^ 31 \<and>
   loopErr (For_run (WithNumGoroutines (NewExecutor 8) 2) 4 (failing_on [0]) 0 one_fails) = Some 0 \<and>
   own 0 (log (For_run (WithNumGoroutines (NewExecutor 8) 2) 4 (failing_on [0]) 0 one_fails))
     = [Fetched 0, Called 0 (Some 0), Captured 0 True] \<and>
   invoked_of (own 1 (log (For_run (WithNumGoroutines (NewExecutor 8) 2) 4 (failing_on [0]) 0
     one_fails))) = [2..2 + 2 - 1] \<and>
   store (For_run (WithNumGoroutines (NewExecutor 8) 2) 4 (failing_on [0]) 0 one_fails) = 3 \<and>
   (\<exists>sched' st. For (WithNumGoroutines (NewExecutor 8) 2) 4 (failing_on [0]) 0 ([0, 0] @ sched')
     = Returns st)"
proof -
  have one_fails_joined:
    "joined (For_run (WithNumGoroutines (NewExecutor 8) 2) 4 (failing_on [0]) 0 one_fails)"
    by code_simp
  have one_fails_own:
    "own 1 (log (For_run (WithNumGoroutines (NewExecutor 8) 2) 4 (failing_on [0]) 0 one_fails))
       = [Fetched 2, Called 2 None, Fetched 3, Called 3 None, Fetched 4]"
    "loopErr (For_run (WithNumGoroutines (NewExecutor 8) 2) 4 (failing_on [0]) 0 one_fails) = Some 0"
    "own 0 (log (For_run (WithNumGoroutines (NewExecutor 8) 2) 4 (failing_on [0]) 0 one_fails))
       = [Fetched 0, Called 0 (Some 0), Captured 0 True]"
    "store (For_run (WithNumGoroutines (NewExecutor 8) 2) 4 (failing_on [0]) 0 one_fails) = 3"
    by code_simp+
  have one_fails_block:
    "block_start (numGoroutines (WithNumGoroutines (NewExecutor 8) 2)) (int 1) 4 = 2"
    "block_size (numGoroutines (WithNumGoroutines (NewExecutor 8) 2)) (int 1) 4 = 2"
    by (simp_all add: WithNumGoroutines_def block_start_def block_size_def)
  let ?e = "WithNumGoroutines (NewExecutor 8) 2"
  let ?R = "For_run ?e 4 (failing_on [0]) 0 one_fails"
  have n: "1 \<le> numGoroutines ?e" by (simp add: WithNumGoroutines_def)
  have m: "numGoroutines ?e < 2 ^ 31" by (simp add: WithNumGoroutines_def)
  have r: "For ?e 4 (failing_on [0]) 0 one_fails = Returns ?R"
    by (rule For_joined [OF one_fails_joined]) (simp add: WithNumGoroutines_def wg_counter_def)
  have c: "strategy_of ?e = ContiguousBlocksStrategy"
    by (simp add: strategy_of_def WithNumGoroutines_def NewExecutor_def newContiguousBlocksStrategy_def)
  have g: "1 < nat (numGoroutines ?e)" by (simp add: WithNumGoroutines_def)
  have u: "\<forall>i x. Called i (Some x) \<notin> set (own 1 (log ?R))" using one_fails_own(1) by simp
  have z: "(0::int) \<le> 4" by simp
  note t = For_error_stops_only_its_goroutine [OF n z, of "failing_on [0]" 0]
  note t1 = t [THEN conjunct1, THEN spec, THEN spec, THEN mp, OF r]
  from t1 [THEN conjunct2, THEN conjunct1, THEN mp, OF c, THEN spec, THEN mp, OF g]
  obtain cur where "invoked_of (own 1 (log ?R))
      = [block_start (numGoroutines ?e) (int 1) 4..cur - 1]"
    and "(\<forall>i x. Called i (Some x) \<notin> set (own 1 (log ?R))) \<longrightarrow>
      cur = block_start (numGoroutines ?e) (int 1) 4 + block_size (numGoroutines ?e) (int 1) 4"
    by blast
  with u have i: "invoked_of (own 1 (log ?R)) = [2..2 + 2 - 1]"
    unfolding one_fails_block by simp
  have x: "\<exists>sched' st. For ?e 4 (failing_on [0]) 0 ([0, 0] @ sched') = Returns st"
    using t [THEN conjunct2, THEN mp, OF m, THEN spec, of "[0, 0]"] .
  show ?thesis
    by (intro conjI r n z m one_fails_own(2) one_fails_own(3) i one_fails_own(4) x)
qed

subsection \<open>ForWithContext and the counter of the wait group\<close>

text \<open>
  \<^verbatim>\<open>ForWithContext\<close> calls \<^verbatim>\<open>wg.Add\<close> as \<^verbatim>\<open>For\<close> does: \<open>2\<^sup>3\<^sup>1\<close> goroutines make it
  panic, a count of \<open>- 2\<^sup>3\<^sup>2\<close> starts no goroutine and returns nil, and a count of
  \<open>1 - 2\<^sup>3\<^sup>2\<close> starts none and waits for one.
\<close>

lemma ForWithContext_counter_wraps:
  "ForWithContext (WithNumGoroutines e (2 ^ 31)) d N b s sched = Panics"
  "\<exists>st. ForWithContext (WithNumGoroutines e (- (2 ^ 32))) d N b s sched = Returns st \<and>
     calls st = [] \<and> loopErr st = None"
  "ForWithContext (WithNumGoroutines e (1 - 2 ^ 32)) d N b s sched = Waits"
proof -
  have w: "workers (ForWithContext_run (WithNumGoroutines e n) d N b s sched) = []" if "n \<le> 0" for n
    using ForWithContext_run_length [of "WithNumGoroutines e n" d N b s sched] that
    by (simp add: WithNumGoroutines_def)
  show "ForWithContext (WithNumGoroutines e (2 ^ 31)) d N b s sched = Panics"
    by (simp add: ForWithContext_def wg_Wait_def WithNumGoroutines_def wg_counter_def)
  show "ForWithContext (WithNumGoroutines e (1 - 2 ^ 32)) d N b s sched = Waits"
    using w [of "1 - 2 ^ 32"]
    by (simp add: ForWithContext_def wg_Wait_def WithNumGoroutines_def wg_counter_def exited_def)
  let ?R = "ForWithContext_run (WithNumGoroutines e (- (2 ^ 32))) d N b s sched"
  have r: "ForWithContext (WithNumGoroutines e (- (2 ^ 32))) d N b s sched
      = Returns (?R\<lparr>cancelled := True\<rparr>)"
    using w [of "- (2 ^ 32)"]
    by (simp add: ForWithContext_def wg_Wait_def WithNumGoroutines_def wg_counter_def exited_def
        joined_def)
  have "log_ids ?R" by (rule ForWithContext_run_facts)
  then have "c \<notin> set (calls ?R)" for c
    using calls_grID [of ?R c] w [of "- (2 ^ 32)"] by auto
  then have c: "calls ?R = []" by (cases "calls ?R") auto
  have "joined ?R" using w [of "- (2 ^ 32)"] by (simp add: joined_def)
  moreover have "first_wins ?R" by (rule ForWithContext_run_first_wins)
  ultimately have "loopErr ?R = None" using c by (simp add: joined_loopErr)
  with r c show "\<exists>st. ForWithContext (WithNumGoroutines e (- (2 ^ 32))) d N b s sched = Returns st \<and>
     calls st = [] \<and> loopErr st = None"
    by (simp add: calls_def)
qed

end
